theory Spec2Isabelle
  imports Main "HOL-Library.Sublist" "HOL-Library.Char_ord" "HOL-Library.List_Lexorder"
begin

section \<open>Python strings\<close>

text \<open>
  A Python \<open>str\<close> is a sequence of code points. It is modelled as a \<open>string\<close> whose
  characters stand for the code points below 256, one character per code point, so that
  \<open>length\<close>, slicing and indexing count what Python counts.
\<close>

abbreviation NL :: char where "NL \<equiv> CHR 0x0A"

abbreviation BSL :: char where "BSL \<equiv> CHR 0x5C"

definition isspace :: "char \<Rightarrow> bool" where
  \<comment> \<open>\<open>str.isspace\<close>, the set that \<open>str.strip()\<close> removes and that \<open>\s\<close> matches:
      code points 9-13, 28-32, 133 and 160.\<close>
  "isspace c = (c \<in> set [CHR 0x09, CHR 0x0A, CHR 0x0B, CHR 0x0C, CHR 0x0D, CHR 0x1C,
                           CHR 0x1D, CHR 0x1E, CHR 0x1F, CHR 0x20, CHR 0x85, CHR 0xA0])"

definition lstrip :: "string \<Rightarrow> string" where
  "lstrip s = dropWhile isspace s"

definition rstrip :: "string \<Rightarrow> string" where
  "rstrip s = rev (dropWhile isspace (rev s))"

definition strip :: "string \<Rightarrow> string" where
  "strip s = rstrip (lstrip s)"

definition slice :: "nat \<Rightarrow> nat \<Rightarrow> string \<Rightarrow> string" where
  \<comment> \<open>\<open>s[a:b]\<close> for non-negative bounds\<close>
  "slice a b s = take (b - a) (drop a s)"

fun split_on :: "char \<Rightarrow> string \<Rightarrow> string list" where
  \<comment> \<open>\<open>s.split(sep)\<close> for a separator of one character\<close>
  "split_on sep [] = [[]]"
| "split_on sep (x # xs) =
     (if x = sep then [] # split_on sep xs
      else (case split_on sep xs of [] \<Rightarrow> [[x]] | l # ls \<Rightarrow> (x # l) # ls))"

fun join :: "string \<Rightarrow> string list \<Rightarrow> string" where
  \<comment> \<open>\<open>sep.join(parts)\<close>\<close>
  "join sep [] = []"
| "join sep [l] = l"
| "join sep (l # ls) = l @ sep @ join sep ls"

fun find_sub :: "string \<Rightarrow> string \<Rightarrow> nat option" where
  \<comment> \<open>\<open>re.search\<close> of a pattern that is a plain text: the start of its first occurrence\<close>
  "find_sub p [] = (if p = [] then Some 0 else None)"
| "find_sub p (x # xs) =
     (if prefix p (x # xs) then Some 0 else map_option Suc (find_sub p xs))"

definition lower_char :: "char \<Rightarrow> char" where
  "lower_char c =
     (let n = (of_char c :: nat)
      in if (65 \<le> n \<and> n \<le> 90) \<or> (192 \<le> n \<and> n \<le> 222 \<and> n \<noteq> 215)
         then char_of (n + 32) else c)"

definition lower :: "string \<Rightarrow> string" where
  "lower s = map lower_char s"

definition upper_char :: "char \<Rightarrow> char" where
  \<comment> \<open>on the ASCII letters, which is all that \<open>PRIORITY_ORDER\<close> holds\<close>
  "upper_char c =
     (let n = (of_char c :: nat)
      in if 97 \<le> n \<and> n \<le> 122 then char_of (n - 32) else c)"

definition capitalize :: "string \<Rightarrow> string" where
  "capitalize s = (case s of [] \<Rightarrow> [] | c # cs \<Rightarrow> upper_char c # lower cs)"


section \<open>update-tech-debt-index.py\<close>

subsection \<open>Frontmatter\<close>

definition closing :: string where
  \<comment> \<open>the pattern \<open>\n---\n\<close>\<close>
  "closing = ''\<newline>---\<newline>''"

definition strip_quotes :: "string \<Rightarrow> string" where
  \<comment> \<open>lines 50-53; \<open>value[1:-1]\<close> is \<open>butlast (tl value)\<close>, empty for one character\<close>
  "strip_quotes v =
     (if prefix [CHR 0x22] v \<and> suffix [CHR 0x22] v then butlast (tl v)
      else if prefix [CHR 0x27] v \<and> suffix [CHR 0x27] v then butlast (tl v)
      else v)"

definition add_line :: "(string \<rightharpoonup> string) \<Rightarrow> string \<Rightarrow> (string \<rightharpoonup> string)" where
  \<comment> \<open>the body of the loop of lines 44-54; \<open>line.split(':', 1)\<close> cuts at the first colon\<close>
  "add_line frontmatter line =
     (if CHR '':'' \<in> set line then
        (let key = strip (takeWhile (\<lambda>c. c \<noteq> CHR '':'') line);
             v = strip (tl (dropWhile (\<lambda>c. c \<noteq> CHR '':'') line))
         in frontmatter(key \<mapsto> strip_quotes v))
      else frontmatter)"

definition parse_frontmatter :: "string \<Rightarrow> (string \<rightharpoonup> string)" where
  "parse_frontmatter content =
     (if \<not> prefix ''---'' content then Map.empty
      else (case find_sub closing (drop 3 content) of
              None \<Rightarrow> Map.empty
            | Some start \<Rightarrow>
                (let yaml_content = slice 4 (start + 4) content
                 in foldl add_line Map.empty (split_on NL (strip yaml_content)))))"

subsection \<open>Title\<close>

fun title_group :: "string \<Rightarrow> nat \<Rightarrow> string option" where
  \<comment> \<open>\<open>\s+(.+)$\<close> on \<open>r\<close>, whose first \<open>m\<close> characters are white space: the greedy
      \<open>\s+\<close> takes \<open>m\<close> of them and gives them back one by one, down to one, until
      \<open>(.+)$\<close> matches; \<open>.\<close> is any character but the newline, so the greedy \<open>.+\<close> runs
      to the end of the line, where \<open>$\<close> holds.\<close>
  "title_group r 0 = None"
| "title_group r (Suc j) =
     (let g = takeWhile (\<lambda>c. c \<noteq> NL) (drop (Suc j) r)
      in if g \<noteq> [] then Some g else title_group r j)"

definition title_at :: "string \<Rightarrow> string option" where
  \<comment> \<open>\<open>#\s+(.+)$\<close> at the head of \<open>s\<close>: group 1 of the match\<close>
  "title_at s =
     (case s of
        [] \<Rightarrow> None
      | c # r \<Rightarrow> if c = CHR ''#'' then title_group r (length (takeWhile isspace r)) else None)"

fun title_search :: "bool \<Rightarrow> string \<Rightarrow> string option" where
  \<comment> \<open>\<open>re.search(r'^#\s+(.+)$', s, re.MULTILINE)\<close>: the leftmost position where the pattern
      matches; the flag says that \<open>^\<close> holds here (start of the text, or after a newline)\<close>
  "title_search bol [] = None"
| "title_search bol (c # cs) =
     (case (if bol then title_at (c # cs) else None) of
        Some g \<Rightarrow> Some g
      | None \<Rightarrow> title_search (c = NL) cs)"

definition skip_frontmatter :: "string \<Rightarrow> string" where
  \<comment> \<open>lines 62-65; \<open>end_match.end()\<close> is the start of the match plus the five characters
      of the pattern\<close>
  "skip_frontmatter content =
     (if prefix ''---'' content then
        (case find_sub closing (drop 3 content) of
           Some start \<Rightarrow> drop (start + 5 + 4) content
         | None \<Rightarrow> content)
      else content)"

definition extract_title :: "string \<Rightarrow> string" where
  "extract_title content =
     (case title_search True (skip_frontmatter content) of
        Some g \<Rightarrow> strip g
      | None \<Rightarrow> ''Untitled'')"

subsection \<open>Scanning the folder\<close>

datatype error = ReadError | WriteError | TemplateError

datatype node = Regular string | ReadOnly string | Unreadable

text \<open>
  The tech-debt folder is the list of its entries in the order \<open>glob\<close> yields them, each
  a name and what is there: a file to read and write, a file to read only, or something
  \<open>read_text\<close> raises on (a directory, a file without permission, bytes that are not
  UTF-8).
\<close>

type_synonym folder = "(string \<times> node) list"

definition read_text :: "node \<Rightarrow> error + string" where
  "read_text n = (case n of Regular s \<Rightarrow> Inr s | ReadOnly s \<Rightarrow> Inr s | Unreadable \<Rightarrow> Inl ReadError)"

record issue =
  filename :: string
  title :: string
  priority :: string
  status :: string
  type :: string
  discovered :: string

definition EXCLUDE_FILES :: "string list" where
  "EXCLUDE_FILES = [''README.md'', ''_TEMPLATE.md'']"

definition PRIORITY_ORDER :: "string list" where
  "PRIORITY_ORDER = [''high'', ''medium'', ''low'']"

definition get :: "(string \<rightharpoonup> string) \<Rightarrow> string \<Rightarrow> string \<Rightarrow> string" where
  \<comment> \<open>\<open>d.get(key, default)\<close>\<close>
  "get d k dflt = (case d k of None \<Rightarrow> dflt | Some v \<Rightarrow> v)"

definition issue_of :: "string \<Rightarrow> string \<Rightarrow> issue" where
  \<comment> \<open>lines 83-93\<close>
  "issue_of name content =
     (let frontmatter = parse_frontmatter content;
          t = extract_title content
      in \<lparr>filename = name, title = t,
          priority = get frontmatter ''priority'' ''low'',
          status = get frontmatter ''status'' ''open'',
          type = get frontmatter ''type'' ''unknown'',
          discovered = get frontmatter ''discovered'' ''''\<rparr>)"

fun scan_issues :: "folder \<Rightarrow> error + issue list" where
  \<comment> \<open>the loop of lines 78-93 over the entries matching \<open>*.md\<close>; a read that raises ends
      the scan\<close>
  "scan_issues [] = Inr []"
| "scan_issues ((name, n) # entries) =
     (if \<not> suffix ''.md'' name \<or> name \<in> set EXCLUDE_FILES then scan_issues entries
      else (case read_text n of
              Inl e \<Rightarrow> Inl e
            | Inr content \<Rightarrow>
                (case scan_issues entries of
                   Inl e \<Rightarrow> Inl e
                 | Inr issues \<Rightarrow> Inr (issue_of name content # issues))))"

subsection \<open>The generated section\<close>

definition HEADING :: string where
  "HEADING = ''## Current Issues by Priority''"

definition by_priority_add :: "(string \<Rightarrow> issue list) \<Rightarrow> issue \<Rightarrow> (string \<Rightarrow> issue list)" where
  \<comment> \<open>the body of the loop of lines 109-114; the keys of \<open>by_priority\<close> are
      \<open>PRIORITY_ORDER\<close>\<close>
  "by_priority_add by_priority i =
     (let p = lower (priority i)
      in if p \<in> set PRIORITY_ORDER then by_priority(p := by_priority p @ [i])
         else by_priority(''low'' := by_priority ''low'' @ [i]))"

definition group_by_priority :: "issue list \<Rightarrow> (string \<Rightarrow> issue list)" where
  \<comment> \<open>lines 108-118: the buckets, each sorted by file name (the sort is stable)\<close>
  "group_by_priority issues =
     (\<lambda>p. sort_key filename (foldl by_priority_add (\<lambda>p. []) issues p))"

definition issue_line :: "issue \<Rightarrow> string" where
  \<comment> \<open>line 131\<close>
  "issue_line i = ''- `'' @ filename i @ ''` - '' @ title i"

definition section_lines :: "string \<Rightarrow> issue list \<Rightarrow> string list" where
  \<comment> \<open>lines 122-133 for one priority\<close>
  "section_lines p priority_issues =
     (let label = capitalize p
      in (if priority_issues = [] then [''**'' @ label @ '' Priority:** None currently'']
          else (''**'' @ label @ '' Priority:**'') # map issue_line priority_issues) @ [[]])"

definition index_lines :: "string \<Rightarrow> issue list \<Rightarrow> string list" where
  \<comment> \<open>the list \<open>lines\<close> at line 135; \<open>now\<close> is the formatted time of line 103\<close>
  "index_lines now issues =
     [HEADING, [], ''*Auto-updated: '' @ now @ ''*'', []] @
     concat (map (\<lambda>p. section_lines p (group_by_priority issues p)) PRIORITY_ORDER)"

definition generate_index_section :: "string \<Rightarrow> issue list \<Rightarrow> string" where
  "generate_index_section now issues = join [NL] (index_lines now issues)"

subsection \<open>Replacing the section in the README\<close>

definition lookahead :: "string \<Rightarrow> bool" where
  \<comment> \<open>\<open>(?=\n## [^#]|\Z)\<close> at the head of \<open>s\<close>; \<open>[^#]\<close> is any one character but \<open>#\<close>\<close>
  "lookahead s =
     ((prefix ''\<newline>## '' s \<and> (case drop 4 s of [] \<Rightarrow> False | c # _ \<Rightarrow> c \<noteq> CHR ''#''))
      \<or> s = [])"

fun lazy_any :: "string \<Rightarrow> nat" where
  \<comment> \<open>\<open>.*?\<close> under \<open>re.DOTALL\<close> before the lookahead: the least number of characters
      after which the lookahead holds\<close>
  "lazy_any [] = 0"
| "lazy_any (c # cs) = (if lookahead (c # cs) then 0 else Suc (lazy_any cs))"

datatype piece = Lit string | Whole

fun expand :: "piece list \<Rightarrow> string \<Rightarrow> string" where
  \<comment> \<open>a parsed replacement template applied to the matched text\<close>
  "expand [] m = []"
| "expand (Lit s # ps) m = s @ expand ps m"
| "expand (Whole # ps) m = m @ expand ps m"

function re_sub :: "piece list \<Rightarrow> string \<Rightarrow> string" where
  \<comment> \<open>\<open>re.sub(pattern, repl, content, flags=re.DOTALL)\<close> with the pattern of line 148:
      every match, from left to right, each search starting where the last match ended\<close>
  "re_sub tpl [] = []"
| "re_sub tpl (c # cs) =
     (if prefix HEADING (c # cs) then
        (let body = drop (length HEADING) (c # cs);
             n = lazy_any body
         in expand tpl (HEADING @ take n body) @ re_sub tpl (drop n body))
      else c # re_sub tpl cs)"
  by pat_completeness auto
termination
  by (relation "measure (\<lambda>(tpl, s). length s)") (simp_all add: HEADING_def)

text \<open>
  The replacement of \<open>re.sub\<close> is a template: the library reads its backslashes before
  it replaces anything, and raises on those it does not know. The pattern has no group,
  so the only reference that stands is the one to the whole match.
\<close>

definition octdigit :: "char \<Rightarrow> bool" where
  "octdigit c = (c \<in> set ''01234567'')"

definition digit :: "char \<Rightarrow> bool" where
  "digit c = (c \<in> set ''0123456789'')"

definition ascii_letter :: "char \<Rightarrow> bool" where
  "ascii_letter c =
     (let n = (of_char c :: nat) in (65 \<le> n \<and> n \<le> 90) \<or> (97 \<le> n \<and> n \<le> 122))"

definition digit_val :: "char \<Rightarrow> nat" where
  "digit_val c = of_char c - 48"

definition escape_of :: "char \<Rightarrow> char option" where
  "escape_of =
     map_of [(CHR ''a'', CHR 0x07), (CHR ''b'', CHR 0x08), (CHR ''f'', CHR 0x0C),
             (CHR ''n'', CHR 0x0A), (CHR ''r'', CHR 0x0D), (CHR ''t'', CHR 0x09),
             (CHR ''v'', CHR 0x0B), (BSL, BSL)]"

definition octal :: "string \<Rightarrow> nat" where
  "octal ds = foldl (\<lambda>v d. 8 * v + digit_val d) 0 ds"

definition int_space :: "char \<Rightarrow> bool" where
  \<comment> \<open>the white space \<open>int()\<close> strips from a text: code points 9-13, 32, 133 and 160\<close>
  "int_space c = (c \<in> set [CHR 0x09, CHR 0x0A, CHR 0x0B, CHR 0x0C, CHR 0x0D, CHR 0x20,
                             CHR 0x85, CHR 0xA0])"

fun no_double_underscore :: "string \<Rightarrow> bool" where
  "no_double_underscore (a # b # r) =
     (\<not> (a = CHR ''_'' \<and> b = CHR ''_'') \<and> no_double_underscore (b # r))"
| "no_double_underscore r = True"

definition names_zero :: "string \<Rightarrow> bool" where
  \<comment> \<open>\<open>int(name)\<close> is zero: white space around, one sign at most, then zeros, single
      underscores between them allowed\<close>
  "names_zero name =
     (let t = rev (dropWhile int_space (rev (dropWhile int_space name)));
          u = (case t of [] \<Rightarrow> [] | c # r \<Rightarrow> if c = CHR ''+'' \<or> c = CHR ''-'' then r else t)
      in u \<noteq> [] \<and> hd u = CHR ''0'' \<and> last u = CHR ''0''
         \<and> list_all (\<lambda>x. x = CHR ''0'' \<or> x = CHR ''_'') u \<and> no_double_underscore u)"

definition group_ref :: "string \<Rightarrow> error + piece \<times> string" where
  \<comment> \<open>after \<open>\g\<close>: \<open><name>\<close>. The name is read as a number unless it is an identifier,
      and the pattern has no group but the whole match, number zero: any other name
      raises\<close>
  "group_ref s =
     (case s of
        [] \<Rightarrow> Inl TemplateError
      | b # s' \<Rightarrow>
          (let name = takeWhile (\<lambda>x. x \<noteq> CHR ''>'') s';
               after = dropWhile (\<lambda>x. x \<noteq> CHR ''>'') s'
           in if b \<noteq> CHR ''<'' \<or> after = [] \<or> name = [] \<or> \<not> names_zero name
              then Inl TemplateError
              else Inr (Whole, tl after)))"

definition numeric_ref :: "char \<Rightarrow> string \<Rightarrow> error + piece \<times> string" where
  \<comment> \<open>after a backslash and a digit from 1 to 9: three octal digits are a character,
      anything else refers to a group the pattern does not have\<close>
  "numeric_ref e s =
     (case s of
        d1 # d2 # s' \<Rightarrow>
          if octdigit e \<and> octdigit d1 \<and> octdigit d2 \<and> octal [e, d1, d2] \<le> 255
          then Inr (Lit [char_of (octal [e, d1, d2])], s')
          else Inl TemplateError
      | _ \<Rightarrow> Inl TemplateError)"

definition template_item :: "char \<Rightarrow> string \<Rightarrow> error + piece \<times> string" where
  \<comment> \<open>the first item of the template \<open>c # s\<close> and what is left of it\<close>
  "template_item c s =
     (if c \<noteq> BSL then Inr (Lit [c], s)
      else (case s of
              [] \<Rightarrow> Inl TemplateError
            | e # s' \<Rightarrow>
                if e = CHR ''g'' then group_ref s'
                else if e = CHR ''0'' then
                  (let ds = takeWhile octdigit (take 2 s')
                   in Inr (Lit [char_of (octal (e # ds) mod 256)], drop (length ds) s'))
                else if digit e then numeric_ref e s'
                else (case escape_of e of
                        Some x \<Rightarrow> Inr (Lit [x], s')
                      | None \<Rightarrow> if ascii_letter e then Inl TemplateError
                                else Inr (Lit [BSL, e], s'))))"

function parse_template :: "string \<Rightarrow> error + piece list" where
  "parse_template [] = Inr []"
| "parse_template (c # s) =
     (case template_item c s of
        Inl e \<Rightarrow> Inl e
      | Inr (p, rest) \<Rightarrow>
          (case parse_template rest of Inl e \<Rightarrow> Inl e | Inr ps \<Rightarrow> Inr (p # ps)))"
  by pat_completeness auto
termination
proof (relation "measure length")
  fix c s x p rest
  assume "template_item c s = Inr x" and "(p, rest) = x"
  then have t: "template_item c s = Inr (p, rest)" by simp
  have "length rest \<le> length s"
  proof (cases "c = BSL")
    case False
    then show ?thesis using t by (simp add: template_item_def)
  next
    case True
    then obtain e s' where s: "s = e # s'" using t by (cases s) (auto simp: template_item_def)
    have g: "group_ref s' = Inr (p, rest) \<Longrightarrow> length rest \<le> length s'"
    proof -
      assume a: "group_ref s' = Inr (p, rest)"
      then obtain b s'' where s': "s' = b # s''" by (cases s') (auto simp: group_ref_def)
      have "rest = tl (dropWhile (\<lambda>x. x \<noteq> CHR ''>'') s'')"
        using a unfolding s' group_ref_def by (simp add: Let_def split: if_splits)
      moreover have "length (dropWhile (\<lambda>x. x \<noteq> CHR ''>'') s'') \<le> length s''"
        by (rule length_dropWhile_le)
      ultimately show ?thesis unfolding s' by simp
    qed
    have n: "numeric_ref e s' = Inr (p, rest) \<Longrightarrow> length rest \<le> length s'"
      by (auto simp: numeric_ref_def split: list.splits if_splits)
    show ?thesis
      using t True g n unfolding s template_item_def
      by (auto simp: Let_def split: if_splits option.splits)
  qed
  then show "(rest, c # s) \<in> measure length" by simp
qed simp

definition update_text :: "string \<Rightarrow> string \<Rightarrow> error + string" where
  \<comment> \<open>lines 146-160, from the text read to the text written. The pattern is found where
      the heading occurs: after it \<open>.*?\<close> can always run to the end of the text, where
      \<open>\Z\<close> holds.\<close>
  "update_text new_section content =
     (if find_sub HEADING content \<noteq> None then
        (case parse_template (rstrip new_section @ [NL]) of
           Inl e \<Rightarrow> Inl e
         | Inr tpl \<Rightarrow> Inr (re_sub tpl content))
      else (case find_sub ''\<newline>## Integration'' content of
              Some insert_pos \<Rightarrow>
                Inr (take insert_pos content @ [NL] @ new_section @ [NL] @ drop insert_pos content)
            | None \<Rightarrow> Inr (rstrip content @ [NL, NL] @ new_section)))"

datatype message =
    Scanning
  | Found nat
  | Count string nat
  | Readme_not_found
  | Updated
  | Failed_to_update
  | Traceback error

definition write_text :: "string \<Rightarrow> string \<Rightarrow> folder \<Rightarrow> error + folder" where
  \<comment> \<open>writing a file that is there\<close>
  "write_text name s folder =
     (case map_of folder name of
        Some (Regular old) \<Rightarrow>
          Inr (map (\<lambda>(n, x). if n = name then (n, Regular s) else (n, x)) folder)
      | _ \<Rightarrow> Inl WriteError)"

definition update_readme :: "string \<Rightarrow> folder \<Rightarrow> error + bool \<times> folder \<times> message list" where
  "update_readme new_section folder =
     (case map_of folder ''README.md'' of
        None \<Rightarrow> Inr (False, folder, [Readme_not_found])
      | Some n \<Rightarrow>
          (case read_text n of
             Inl e \<Rightarrow> Inl e
           | Inr content \<Rightarrow>
               (case update_text new_section content of
                  Inl e \<Rightarrow> Inl e
                | Inr new_content \<Rightarrow>
                    (case write_text ''README.md'' new_content folder of
                       Inl e \<Rightarrow> Inl e
                     | Inr folder' \<Rightarrow> Inr (True, folder', [])))))"

record run =
  exit_code :: nat
  files :: folder
  printed :: "message list"

definition counts :: "issue list \<Rightarrow> message list" where
  \<comment> \<open>lines 174-182: the tally is keyed by the priority as the file spells it\<close>
  "counts issues =
     concat (map (\<lambda>p. let n = length (filter (\<lambda>i. priority i = p) issues)
                       in if n > 0 then [Count (capitalize p) n] else []) PRIORITY_ORDER)"

definition main :: "string \<Rightarrow> folder \<Rightarrow> run" where
  \<comment> \<open>\<open>exit(main())\<close>: an exception that nothing catches ends the process with code 1\<close>
  "main now folder =
     (case scan_issues folder of
        Inl e \<Rightarrow> \<lparr>exit_code = 1, files = folder, printed = [Scanning, Traceback e]\<rparr>
      | Inr issues \<Rightarrow>
          (let out = [Scanning, Found (length issues)] @ counts issues;
               new_section = generate_index_section now issues
           in case update_readme new_section folder of
                Inl e \<Rightarrow> \<lparr>exit_code = 1, files = folder, printed = out @ [Traceback e]\<rparr>
              | Inr (ok, folder', msgs) \<Rightarrow>
                  if ok then \<lparr>exit_code = 0, files = folder', printed = out @ msgs @ [Updated]\<rparr>
                  else \<lparr>exit_code = 1, files = folder',
                         printed = out @ msgs @ [Failed_to_update]\<rparr>))"

subsection \<open>The example of the specification\<close>

definition example_file :: string where
  "example_file =
     ''---\<newline>priority: High\<newline>status: open\<newline>---\<newline># Fix race condition\<newline>Details...''"

definition bucket :: "issue \<Rightarrow> string" where
  \<comment> \<open>the key under which the loop of lines 109-114 files a record\<close>
  "bucket i = (if lower (priority i) \<in> set PRIORITY_ORDER then lower (priority i) else ''low'')"

definition urgent_issue :: issue where
  "urgent_issue = \<lparr>filename = ''a.md'', title = ''Leak'', priority = ''Urgent'',
      status = ''open'', type = ''unknown'', discovered = []\<rparr>"


definition spec_heading_line :: "string \<Rightarrow> bool" where
  \<comment> \<open>the wording of the specification: one \<open>#\<close> character, one space, then text\<close>
  "spec_heading_line l = (prefix ''# '' l \<and> length l > 2)"

definition hash_line :: "string \<Rightarrow> bool" where
  \<comment> \<open>a line that is \<open>#\<close> alone, or \<open>#\<close> and then a white space character\<close>
  "hash_line l = (case l of [] \<Rightarrow> False | c # r \<Rightarrow> c = CHR ''#'' \<and> (r = [] \<or> isspace (hd r)))"


definition spec_unquote :: "string \<Rightarrow> string" where
  \<comment> \<open>the wording of the specification: when both ends are the same quote character,
      double or single, the first and the last character are dropped\<close>
  "spec_unquote v =
     (if v \<noteq> [] \<and> hd v = last v \<and> (hd v = CHR 0x22 \<or> hd v = CHR 0x27) then butlast (tl v)
      else v)"

definition spec_entry :: "string \<Rightarrow> (string \<times> string) option" where
  \<comment> \<open>the wording of the specification for one line: no colon, no entry; else split on
      the first colon, trim key and value, strip one layer of matching quotes\<close>
  "spec_entry line =
     (if CHR '':'' \<notin> set line then None
      else Some (strip (takeWhile (\<lambda>c. c \<noteq> CHR '':'') line),
                 spec_unquote (strip (tl (dropWhile (\<lambda>c. c \<noteq> CHR '':'') line)))))"

definition spec_frontmatter :: "string list \<Rightarrow> (string \<rightharpoonup> string)" where
  \<comment> \<open>the wording of the specification for the lines between the delimiters: the entries
      of the lines, a later one of the same key before an earlier one\<close>
  "spec_frontmatter ls = map_of (rev (List.map_filter spec_entry ls))"


definition broken_folder :: folder where
  \<comment> \<open>a folder with its README and an issue file that cannot be read\<close>
  "broken_folder = [(''README.md'', Regular ''# Debt\<newline>''), (''a.md'', Unreadable)]"

definition small_folder :: folder where
  "small_folder =
     [(''README.md'', Regular ''# Debt\<newline>''),
      (''a.md'', Regular ''---\<newline>priority: high\<newline>---\<newline>\<newline># Leak\<newline>'')]"

definition issues_only_folder :: folder where
  "issues_only_folder =
     [(''a.md'', Regular ''---\<newline>priority: high\<newline>---\<newline>\<newline># Leak\<newline>'')]"


definition appendix_readme :: string where
  \<comment> \<open>a README whose generated section is followed by a heading of the first level\<close>
  "appendix_readme =
     ''intro\<newline>'' @ HEADING @ ''\<newline>old\<newline>'' @ ''# Appendix\<newline>kept\<newline>''"


definition integration_readme :: string where
  \<comment> \<open>a README without the section and with the anchor heading\<close>
  "integration_readme = ''# Debt\<newline>\<newline>## Integration\<newline>notes\<newline>''"

definition empty_section :: string where
  \<comment> \<open>the section generated for no issue\<close>
  "empty_section = generate_index_section ''2024-05-01 12:30'' []"

definition one_section :: string where
  \<comment> \<open>the section generated for one issue\<close>
  "one_section = generate_index_section ''2024-05-01 12:30'' [urgent_issue]"

definition plain_readme :: string where
  \<comment> \<open>a README with neither the section nor the anchor heading\<close>
  "plain_readme = ''# Debt\<newline>\<newline>Notes.\<newline>\<newline>''"


section \<open>session-archive.py\<close>

text \<open>
  The hook reads one JSON value from standard input. The model takes the value as the
  library has parsed it: nothing when the text is not JSON and \<open>json.load\<close> raises
  \<open>JSONDecodeError\<close>; an object with its members;
  or a value that is not an object. A member is given by what the code can see of it: a
  string; a list, with the text \<open>repr\<close> shows for each element; an object, with the text
  of each of its items; or a value without a length (null, a truth value, a number),
  with the text \<open>str\<close> shows for it.

  A place on the disk is the list of its names below the root, so the root is the empty
  list. The disk is the list of the files and directories below the root, each with its
  place, a later entry of a place hidden by an earlier one; it is a tree: the parent of
  every entry is a directory. There are no symbolic links.
\<close>

datatype jvalue = VStr string | VList "string list" | VDict "string list" | VOther string

datatype json = JObject "(string \<times> jvalue) list" | JOther

type_synonym path = "string list"

datatype entry = Dir | File string

type_synonym disk = "(path \<times> entry) list"

datatype archive_message =
    Parse_failed
  | Crashed
  | Transcript_not_found string
  | Copy_failed
  | Archived string string string

record archive_run =
  exit_status :: nat
  disk_after :: disk
  said :: "archive_message list"

definition py_str :: "jvalue \<Rightarrow> string" where
  \<comment> \<open>\<open>str(v)\<close>, as an f-string formats a value\<close>
  "py_str v =
     (case v of
        VStr s \<Rightarrow> s
      | VList rs \<Rightarrow> ''['' @ join '', '' rs @ '']''
      | VDict items \<Rightarrow> ''{'' @ join '', '' items @ ''}''
      | VOther s \<Rightarrow> s)"

definition get_default :: "(string \<times> jvalue) list \<Rightarrow> string \<Rightarrow> string \<Rightarrow> jvalue" where
  \<comment> \<open>\<open>data.get(key, default)\<close> on an object\<close>
  "get_default members key dflt = (case map_of members key of None \<Rightarrow> VStr dflt | Some v \<Rightarrow> v)"

definition to_path :: "jvalue \<Rightarrow> string option" where
  \<comment> \<open>\<open>Path(v)\<close>: a path is kept as its text; anything but a string raises\<close>
  "to_path v = (case v of VStr s \<Rightarrow> Some s | _ \<Rightarrow> None)"

definition components :: "string \<Rightarrow> string list" where
  \<comment> \<open>the parts of a path text between slashes; \<open>Path\<close> drops the empty ones and the
      single dots and keeps the double dots\<close>
  "components s = filter (\<lambda>c. c \<noteq> [] \<and> c \<noteq> ''.'') (split_on (CHR ''/'') s)"

fun normalize :: "path \<Rightarrow> string list \<Rightarrow> path" where
  \<comment> \<open>\<open>resolve()\<close> reads the parts as text: \<open>..\<close> goes to the parent, and the parent of
      the root is the root\<close>
  "normalize p [] = p"
| "normalize p (c # cs) = (if c = ''..'' then normalize (butlast p) cs else normalize (p @ [c]) cs)"

definition resolve :: "path \<Rightarrow> string \<Rightarrow> path" where
  \<comment> \<open>\<open>Path(s).resolve()\<close> in a process whose working directory is \<open>wd\<close>\<close>
  "resolve wd s = normalize (if prefix ''/'' s then [] else wd) (components s)"

definition exists :: "disk \<Rightarrow> path \<Rightarrow> bool" where
  "exists d p = (p = [] \<or> map_of d p \<noteq> None)"

definition is_dir :: "disk \<Rightarrow> path \<Rightarrow> bool" where
  "is_dir d p = (p = [] \<or> map_of d p = Some Dir)"

fun walk :: "disk \<Rightarrow> path \<Rightarrow> string list \<Rightarrow> path option" where
  \<comment> \<open>the system following the parts of a path from the place \<open>cur\<close>: \<open>..\<close> is the parent
      of a directory that is there, and of nothing else\<close>
  "walk d cur [] = Some cur"
| "walk d cur (c # cs) =
     (if c = ''..'' then (if is_dir d cur then walk d (butlast cur) cs else None)
      else walk d (cur @ [c]) cs)"

definition stat_from :: "disk \<Rightarrow> path \<Rightarrow> string list \<Rightarrow> path option" where
  \<comment> \<open>the place the parts lead to, when something is there\<close>
  "stat_from d start parts =
     (case walk d start parts of
        None \<Rightarrow> None
      | Some p \<Rightarrow> if exists d p then Some p else None)"

definition stat :: "disk \<Rightarrow> path \<Rightarrow> string \<Rightarrow> path option" where
  \<comment> \<open>\<open>os.stat\<close> of a path text in a process whose working directory is \<open>wd\<close>\<close>
  "stat d wd s = stat_from d (if prefix ''/'' s then [] else wd) (components s)"

fun find_up :: "disk \<Rightarrow> string list \<Rightarrow> path option" where
  \<comment> \<open>the loop of lines 21-24 on the reversed path: the root itself is not looked at\<close>
  "find_up d [] = None"
| "find_up d (c # rp) =
     (if exists d (rev (c # rp) @ [''.memory-bank'']) then Some (rev (c # rp))
      else find_up d rp)"

definition find_project_root :: "disk \<Rightarrow> path \<Rightarrow> path" where
  \<comment> \<open>\<open>start\<close> is \<open>start_path.resolve()\<close>\<close>
  "find_project_root d start = (case find_up d (rev start) of Some p \<Rightarrow> p | None \<Rightarrow> start)"

fun mkdir_from :: "disk \<Rightarrow> path \<Rightarrow> string list \<Rightarrow> disk option" where
  \<comment> \<open>\<open>mkdir(parents=True, exist_ok=True)\<close>: below the directory \<open>p\<close>, every missing
      directory of the way is made; a file in the way raises\<close>
  "mkdir_from d p [] = Some d"
| "mkdir_from d p (c # cs) =
     (case map_of d (p @ [c]) of
        Some Dir \<Rightarrow> mkdir_from d (p @ [c]) cs
      | Some (File s) \<Rightarrow> None
      | None \<Rightarrow> mkdir_from ((p @ [c], Dir) # d) (p @ [c]) cs)"

definition write_at :: "disk \<Rightarrow> path \<Rightarrow> path \<Rightarrow> string list \<Rightarrow> string \<Rightarrow> disk option" where
  \<comment> \<open>the file at place \<open>src\<close>, of content \<open>s\<close>, written where the parts lead from
      \<open>start\<close>: all but the last part lead to a directory, the last part names the file,
      which is not a directory and not the source itself\<close>
  "write_at d src start parts s =
     (if parts = [] then None
      else (case walk d start (butlast parts) of
              None \<Rightarrow> None
            | Some parent \<Rightarrow>
                (let target = parent @ [last parts]
                 in if \<not> is_dir d parent \<or> last parts = ''..'' \<or> is_dir d target \<or> target = src
                    then None
                    else Some ((target, File s) # d))))"

definition copy2 :: "disk \<Rightarrow> path \<Rightarrow> string \<Rightarrow> path \<Rightarrow> string list \<Rightarrow> disk option" where
  \<comment> \<open>\<open>shutil.copy2(src, dst)\<close> for the source text \<open>src\<close> and the destination given by
      its parts from \<open>start\<close>: the source is a file; a destination that is a directory
      takes the file under the last name of the source; any error leaves the disk as it
      was\<close>
  "copy2 d wd src start parts =
     (case stat d wd src of
        None \<Rightarrow> None
      | Some sp \<Rightarrow>
          (case map_of d sp of
             Some (File s) \<Rightarrow>
               (case stat_from d start parts of
                  Some dp \<Rightarrow>
                    if is_dir d dp then write_at d sp start (parts @ [last (components src)]) s
                    else write_at d sp start parts s
                | None \<Rightarrow> write_at d sp start parts s)
           | _ \<Rightarrow> None))"

definition short_id_of :: "jvalue \<Rightarrow> jvalue option" where
  \<comment> \<open>line 54: \<open>len\<close> raises on a value without a length, and the slice of an object
      raises\<close>
  "short_id_of v =
     (case v of
        VStr s \<Rightarrow> Some (VStr (if length s \<ge> 8 then take 8 s else s))
      | VList rs \<Rightarrow> Some (VList (if length rs \<ge> 8 then take 8 rs else rs))
      | VDict items \<Rightarrow> if length items \<ge> 8 then None else Some (VDict items)
      | VOther s \<Rightarrow> None)"

definition archive_name :: "string \<Rightarrow> jvalue \<Rightarrow> string" where
  \<comment> \<open>line 55; \<open>stamp\<close> is the time of line 53 as \<open>strftime\<close> formats it\<close>
  "archive_name stamp short_id = stamp @ ''_'' @ py_str short_id @ ''.jsonl''"

definition name_of :: "path \<Rightarrow> string" where
  \<comment> \<open>\<open>Path.name\<close>\<close>
  "name_of p = (if p = [] then [] else last p)"

definition crash :: "disk \<Rightarrow> archive_run" where
  \<comment> \<open>an exception that nothing catches: the process ends with status 1\<close>
  "crash d = \<lparr>exit_status = 1, disk_after = d, said = [Crashed]\<rparr>"

definition archive :: "path \<Rightarrow> string \<Rightarrow> disk \<Rightarrow> jvalue \<Rightarrow> string \<Rightarrow> jvalue \<Rightarrow> string \<Rightarrow> archive_run" where
  \<comment> \<open>lines 42-64, for the session id, the transcript path, the reason and the working
      directory of the session\<close>
  "archive wd stamp d sid transcript why cw =
     (let project_root = find_project_root d (resolve wd cw);
          destination_dir = project_root @ [''.memory-bank'', ''sessions'']
      in case mkdir_from d [] destination_dir of
           None \<Rightarrow> crash d
         | Some d1 \<Rightarrow>
             if stat d1 wd transcript = None
             then \<lparr>exit_status = 1, disk_after = d1, said = [Transcript_not_found transcript]\<rparr>
             else
               (case short_id_of sid of
                  None \<Rightarrow> crash d1
                | Some short_id \<Rightarrow>
                    (let filename = archive_name stamp short_id;
                         parts = (if prefix ''/'' filename then components filename
                                  else destination_dir @ components filename)
                     in case copy2 d1 wd transcript [] parts of
                          Some d2 \<Rightarrow>
                            \<lparr>exit_status = 0, disk_after = d2,
                             said = [Archived (name_of project_root) filename (py_str why)]\<rparr>
                        | None \<Rightarrow> \<lparr>exit_status = 1, disk_after = d1, said = [Copy_failed]\<rparr>)))"

definition main_session_archive :: "path \<Rightarrow> string \<Rightarrow> disk \<Rightarrow> json option \<Rightarrow> archive_run" where
  \<comment> \<open>\<open>main\<close> of session-archive.py in a process with working directory \<open>wd\<close>; the end
      of \<open>main\<close> ends the process with status 0\<close>
  "main_session_archive wd stamp d input =
     (case input of
        None \<Rightarrow> \<lparr>exit_status = 1, disk_after = d, said = [Parse_failed]\<rparr>
      | Some JOther \<Rightarrow> crash d
      | Some (JObject data) \<Rightarrow>
          (let sid = get_default data ''session_id'' ''unknown''
           in case to_path (get_default data ''transcript_path'' []) of
                None \<Rightarrow> crash d
              | Some transcript \<Rightarrow>
                  (let why = get_default data ''reason'' ''unknown''
                   in case to_path (get_default data ''cwd'' ''.'') of
                        None \<Rightarrow> crash d
                      | Some cw \<Rightarrow> archive wd stamp d sid transcript why cw)))"

definition project_disk :: disk where
  \<comment> \<open>the disk of the example: \<open>/proj/.memory-bank\<close> and the transcript \<open>/tmp/t.jsonl\<close>\<close>
  "project_disk =
     [([''proj''], Dir), ([''proj'', ''.memory-bank''], Dir),
      ([''tmp''], Dir), ([''tmp'', ''t.jsonl''], File ''{}'')]"

definition example_input :: json where
  "example_input =
     JObject [(''session_id'', VStr ''abcdef1234''), (''transcript_path'', VStr ''/tmp/t.jsonl''),
              (''cwd'', VStr ''/proj''), (''reason'', VStr ''exit'')]"






section \<open>Lines and occurrences\<close>

lemma split_on_nonempty: "split_on sep s \<noteq> []"
  by (induction s) (auto split: list.splits)

lemma split_on_Cons:
  "split_on sep (x # xs) =
     (if x = sep then [] # split_on sep xs
      else (x # hd (split_on sep xs)) # tl (split_on sep xs))"
  using split_on_nonempty [of sep xs] by (cases "split_on sep xs") auto

declare split_on.simps(2) [simp del]

lemma split_on_line_Cons:
  "sep \<notin> set l \<Longrightarrow> split_on sep (l @ sep # b) = l # split_on sep b"
  by (induction l) (auto simp: split_on_Cons)

lemma split_on_no_sep: "sep \<notin> set l \<Longrightarrow> split_on sep l = [l]"
  by (induction l) (auto simp: split_on_Cons)

lemma set_tl_subset: "x \<in> set (tl xs) \<Longrightarrow> x \<in> set xs"
  by (cases xs) auto

lemma later_line:
  "sep \<notin> set l \<Longrightarrow> l \<in> set (tl (split_on sep (a @ sep # l @ sep # b)))"
proof (induction a)
  case Nil
  then show ?case by (simp add: split_on_Cons split_on_line_Cons)
next
  case (Cons x a)
  then show ?case by (auto simp: split_on_Cons dest: set_tl_subset)
qed

lemma find_sub_Some:
  "find_sub p s = Some k \<Longrightarrow> s = take k s @ p @ drop (k + length p) s"
proof (induction s arbitrary: k)
  case Nil
  then show ?case by (auto split: if_splits)
next
  case (Cons x xs)
  show ?case
  proof (cases "prefix p (x # xs)")
    case True
    then show ?thesis using Cons.prems by (auto simp: prefix_def)
  next
    case False
    then obtain j where "find_sub p xs = Some j" "k = Suc j" using Cons.prems by auto
    then show ?thesis using Cons.IH [of j] by simp
  qed
qed

lemma closing_is_line:
  assumes "find_sub closing (drop 3 content) = Some k"
  shows "''---'' \<in> set (tl (split_on NL content))"
proof -
  let ?d = "drop 3 content"
  have d: "?d = take k ?d @ closing @ drop (k + length closing) ?d"
    using find_sub_Some [OF assms] .
  have "content = take 3 content @ ?d" by simp
  then have "content = (take 3 content @ take k ?d) @ NL # ''---'' @ NL # drop (k + length closing) ?d"
    using d by (simp add: closing_def)
  then obtain a b where c: "content = a @ NL # ''---'' @ NL # b" by blast
  have "NL \<notin> set ''---''" by simp
  from later_line [OF this, of a b] show ?thesis unfolding c .
qed

section \<open>The properties\<close>

text \<open>
  C2. The example file of the specification gives a record with priority \<open>High\<close> and
  status \<open>open\<close>, which the generator puts in the bucket \<open>high\<close>. Its title is not
  \<open>Fix race condition\<close>: \<open>extract_title\<close> cuts the text one character after the closing
  delimiter line, which here is the \<open>#\<close> of the heading, finds no heading in what is
  left and returns the placeholder.
\<close>

theorem example_file_scanned:
  "scan_issues [(''file.md'', Regular example_file)] =
     Inr [\<lparr>filename = ''file.md'', title = ''Untitled'', priority = ''High'',
           status = ''open'', type = ''unknown'', discovered = ''''\<rparr>]
   \<and> skip_frontmatter example_file = '' Fix race condition\<newline>Details...''
   \<and> group_by_priority [issue_of ''file.md'' example_file] ''high''
       = [issue_of ''file.md'' example_file]"
  by code_simp

text \<open>
  C6. \<open>parse_frontmatter\<close> is a total function with no error among its results, and it
  returns the empty mapping when the text does not begin with \<open>---\<close>, when the search
  for the closing delimiter finds nothing, and so whenever no line after the first is
  \<open>---\<close>.
\<close>

theorem parse_frontmatter_empty:
  "(\<not> prefix ''---'' content \<longrightarrow> parse_frontmatter content = Map.empty)
   \<and> (find_sub closing (drop 3 content) = None \<longrightarrow> parse_frontmatter content = Map.empty)
   \<and> (''---'' \<notin> set (tl (split_on NL content)) \<longrightarrow> parse_frontmatter content = Map.empty)"
proof -
  have "parse_frontmatter content = Map.empty"
    if "''---'' \<notin> set (tl (split_on NL content))"
  proof (cases "find_sub closing (drop 3 content)")
    case None
    then show ?thesis by (simp add: parse_frontmatter_def)
  next
    case (Some k)
    from closing_is_line [OF this] that show ?thesis by simp
  qed
  then show ?thesis by (simp add: parse_frontmatter_def)
qed

theorem parse_frontmatter_empty_witness:
  "\<not> prefix ''---'' ''# Title\<newline>---\<newline>a: b''
   \<and> parse_frontmatter ''# Title\<newline>---\<newline>a: b'' = Map.empty
   \<and> find_sub closing (drop 3 ''---\<newline>a: b\<newline>'') = None
   \<and> ''---'' \<notin> set (tl (split_on NL ''---\<newline>a: b\<newline>''))
   \<and> parse_frontmatter ''---\<newline>a: b\<newline>'' = Map.empty"
proof -
  have 1: "\<not> prefix ''---'' ''# Title\<newline>---\<newline>a: b''" by simp
  have 2: "find_sub closing (drop 3 ''---\<newline>a: b\<newline>'') = None" by code_simp
  have 3: "''---'' \<notin> set (tl (split_on NL ''---\<newline>a: b\<newline>''))" by code_simp
  show ?thesis
    using 1 2 3 parse_frontmatter_empty [of "''# Title\<newline>---\<newline>a: b''"]
      parse_frontmatter_empty [of "''---\<newline>a: b\<newline>''"]
    by blast
qed

section \<open>Buckets\<close>

lemma foldl_by_priority_add:
  "foldl by_priority_add f issues p = f p @ filter (\<lambda>i. bucket i = p) issues"
proof (induction issues arbitrary: f)
  case Nil
  then show ?case by simp
next
  case (Cons i issues)
  show ?case
    unfolding foldl_Cons Cons.IH
    by (simp add: by_priority_add_def bucket_def Let_def)
qed

lemma set_group_by_priority:
  "set (group_by_priority issues p) = {i \<in> set issues. bucket i = p}"
  by (simp add: group_by_priority_def foldl_by_priority_add)

lemma capitalize_low: "capitalize ''low'' = ''Low''"
  by code_simp

lemma join_append:
  "xs \<noteq> [] \<Longrightarrow> ys \<noteq> [] \<Longrightarrow> join sep (xs @ ys) = join sep xs @ sep @ join sep ys"
proof (induction xs)
  case Nil
  then show ?case by simp
next
  case (Cons x xs)
  show ?case
  proof (cases xs)
    case Nil
    then show ?thesis using Cons.prems(2) by (cases ys) simp_all
  next
    case (Cons x' xs')
    then show ?thesis using Cons.IH Cons.prems(2) by simp
  qed
qed

lemma join_line_between:
  assumes "A \<noteq> []" and "C \<noteq> []"
  shows "\<exists>pre mid post.
    join [NL] (A @ [label] @ B @ [line] @ C) = pre @ label @ [NL] @ mid @ line @ [NL] @ post"
proof -
  have 1: "join [NL] (A @ ([label] @ B @ [line] @ C))
      = join [NL] A @ [NL] @ join [NL] ([label] @ B @ [line] @ C)"
    using assms(1) by (intro join_append) simp_all
  have 2: "join [NL] ([label] @ (B @ [line] @ C)) = join [NL] [label] @ [NL] @ join [NL] (B @ [line] @ C)"
    by (intro join_append) simp_all
  have 3: "join [NL] ([line] @ C) = join [NL] [line] @ [NL] @ join [NL] C"
    using assms(2) by (intro join_append) simp_all
  have 4: "\<exists>mid. join [NL] (B @ [line] @ C) = mid @ line @ [NL] @ join [NL] C"
  proof (cases "B = []")
    case True
    then have "join [NL] (B @ [line] @ C) = [] @ line @ [NL] @ join [NL] C" using 3 by simp
    then show ?thesis by blast
  next
    case False
    then have "join [NL] (B @ ([line] @ C)) = join [NL] B @ [NL] @ join [NL] ([line] @ C)"
      by (intro join_append) simp_all
    then have "join [NL] (B @ [line] @ C) = (join [NL] B @ [NL]) @ line @ [NL] @ join [NL] C"
      using 3 by simp
    then show ?thesis by blast
  qed
  then obtain mid where "join [NL] (B @ [line] @ C) = mid @ line @ [NL] @ join [NL] C" by blast
  then have "join [NL] (A @ [label] @ B @ [line] @ C)
      = (join [NL] A @ [NL]) @ label @ [NL] @ mid @ line @ [NL] @ join [NL] C"
    using 1 2 by simp
  then show ?thesis by blast
qed

text \<open>
  C7. A record whose priority, lowercased, is none of \<open>high\<close>, \<open>medium\<close>, \<open>low\<close> is put
  in the bucket \<open>low\<close> and in no other bucket, and \<open>generate_index_section\<close> renders
  it under the Low Priority label: the text it returns is the lines of the heading, of
  the High and of the Medium sub-section, the label \<open>**Low Priority:**\<close>, and the lines
  of the bucket \<open>low\<close>, among them the line with the file name and the title of the
  record. The generator has no error among its results.
\<close>

theorem unknown_priority_is_low:
  assumes "i \<in> set issues"
    and "lower (priority i) \<notin> {''high'', ''medium'', ''low''}"
  shows "i \<in> set (group_by_priority issues ''low'')
    \<and> i \<notin> set (group_by_priority issues ''high'')
    \<and> i \<notin> set (group_by_priority issues ''medium'')
    \<and> (\<exists>before after.
          group_by_priority issues ''low'' = before @ i # after
          \<and> generate_index_section now issues =
              join [NL]
                ([HEADING, [], ''*Auto-updated: '' @ now @ ''*'', []]
                 @ section_lines ''high'' (group_by_priority issues ''high'')
                 @ section_lines ''medium'' (group_by_priority issues ''medium'')
                 @ [''**Low Priority:**'']
                 @ map issue_line before
                 @ [''- `'' @ filename i @ ''` - '' @ title i]
                 @ map issue_line after
                 @ [[]]))
    \<and> (\<exists>pre mid post.
          generate_index_section now issues =
            pre @ ''**Low Priority:**'' @ [NL] @ mid
            @ (''- `'' @ filename i @ ''` - '' @ title i) @ [NL] @ post)"
proof -
  let ?head = "[HEADING, [], ''*Auto-updated: '' @ now @ ''*'', []]
      @ section_lines ''high'' (group_by_priority issues ''high'')
      @ section_lines ''medium'' (group_by_priority issues ''medium'')"
  let ?line = "''- `'' @ filename i @ ''` - '' @ title i"
  have b: "bucket i = ''low''"
    using assms(2) by (simp add: bucket_def PRIORITY_ORDER_def)
  have low: "i \<in> set (group_by_priority issues ''low'')"
    using assms(1) b by (simp add: set_group_by_priority)
  then obtain before after where ba: "group_by_priority issues ''low'' = before @ i # after"
    by (meson split_list)
  have "section_lines ''low'' (before @ i # after)
      = [''**Low Priority:**''] @ map issue_line before @ [?line] @ map issue_line after @ [[]]"
    by (simp add: section_lines_def capitalize_low issue_line_def)
  then have lines: "index_lines now issues =
      ?head @ [''**Low Priority:**''] @ map issue_line before @ [?line]
        @ (map issue_line after @ [[]])"
    by (simp add: index_lines_def PRIORITY_ORDER_def ba)
  then have whole: "generate_index_section now issues =
      join [NL] (?head @ [''**Low Priority:**''] @ map issue_line before @ [?line]
        @ (map issue_line after @ [[]]))"
    by (simp only: generate_index_section_def)
  have "\<exists>pre mid post.
      join [NL] (?head @ [''**Low Priority:**''] @ map issue_line before @ [?line]
        @ (map issue_line after @ [[]]))
      = pre @ ''**Low Priority:**'' @ [NL] @ mid @ ?line @ [NL] @ post"
    by (rule join_line_between) simp_all
  then have between: "\<exists>pre mid post. generate_index_section now issues =
      pre @ ''**Low Priority:**'' @ [NL] @ mid @ ?line @ [NL] @ post"
    using whole by simp
  have exact: "\<exists>before after.
      group_by_priority issues ''low'' = before @ i # after
      \<and> generate_index_section now issues =
          join [NL] (?head @ [''**Low Priority:**''] @ map issue_line before @ [?line]
            @ map issue_line after @ [[]])"
    using ba whole by blast
  have "i \<notin> set (group_by_priority issues ''high'')"
    and "i \<notin> set (group_by_priority issues ''medium'')"
    using b by (simp_all add: set_group_by_priority)
  with low exact between show ?thesis by simp
qed

theorem unknown_priority_is_low_witness:
  "urgent_issue \<in> set [urgent_issue]
   \<and> lower (priority urgent_issue) \<notin> {''high'', ''medium'', ''low''}
   \<and> urgent_issue \<in> set (group_by_priority [urgent_issue] ''low'')
   \<and> (\<exists>pre mid post.
          generate_index_section ''2024-05-01 12:30'' [urgent_issue] =
            pre @ ''**Low Priority:**'' @ [NL] @ mid
            @ (''- `'' @ filename urgent_issue @ ''` - '' @ title urgent_issue) @ [NL] @ post)"
proof -
  have 1: "urgent_issue \<in> set [urgent_issue]" by simp
  have "lower (priority urgent_issue) = ''urgent''" by code_simp
  then have 2: "lower (priority urgent_issue) \<notin> {''high'', ''medium'', ''low''}" by simp
  note T = unknown_priority_is_low [OF 1 2, of "''2024-05-01 12:30''"]
  have a: "urgent_issue \<in> set (group_by_priority [urgent_issue] ''low'')"
    using T by (elim conjE)
  have b: "\<exists>pre mid post.
          generate_index_section ''2024-05-01 12:30'' [urgent_issue] =
            pre @ ''**Low Priority:**'' @ [NL] @ mid
            @ (''- `'' @ filename urgent_issue @ ''` - '' @ title urgent_issue) @ [NL] @ post"
    using T by (elim conjE)
  from 1 2 a b show ?thesis by blast
qed

section \<open>Titles\<close>

lemma title_at_Some:
  "title_at s = Some g \<Longrightarrow> \<exists>c r. s = CHR ''#'' # c # r \<and> isspace c"
proof (cases s)
  case Nil
  then show "title_at s = Some g \<Longrightarrow> ?thesis" by (simp add: title_at_def)
next
  case (Cons a r)
  assume t: "title_at s = Some g"
  then have a: "a = CHR ''#''" using Cons by (simp add: title_at_def split: if_splits)
  have "takeWhile isspace r \<noteq> []"
    using t Cons a by (auto simp: title_at_def)
  then obtain c r' where "r = c # r'" "isspace c"
    by (cases r) (auto split: if_splits)
  then show ?thesis using Cons a by simp
qed

lemma title_at_hash_line:
  assumes "title_at s = Some g"
  shows "hash_line (hd (split_on NL s))"
proof -
  from title_at_Some [OF assms] obtain c r where s: "s = CHR ''#'' # c # r" and c: "isspace c"
    by blast
  show ?thesis
    unfolding s using c by (simp add: split_on_Cons hash_line_def)
qed

lemma title_search_None:
  assumes "bol \<longrightarrow> \<not> hash_line (hd (split_on NL s))"
    and "\<forall>l \<in> set (tl (split_on NL s)). \<not> hash_line l"
  shows "title_search bol s = None"
  using assms
proof (induction s arbitrary: bol)
  case Nil
  then show ?case by simp
next
  case (Cons c cs)
  have here: "(if bol then title_at (c # cs) else None) = None"
  proof (cases bol)
    case True
    then have "\<not> hash_line (hd (split_on NL (c # cs)))" using Cons.prems(1) by simp
    then have "title_at (c # cs) = None"
      using title_at_hash_line [of "c # cs"] by (cases "title_at (c # cs)") auto
    then show ?thesis by simp
  next
    case False
    then show ?thesis by simp
  qed
  have rest: "title_search (c = NL) cs = None"
  proof (rule Cons.IH)
    show "c = NL \<longrightarrow> \<not> hash_line (hd (split_on NL cs))"
      using Cons.prems(2) split_on_nonempty [of NL cs]
      by (cases "split_on NL cs") (auto simp: split_on_Cons)
    show "\<forall>l \<in> set (tl (split_on NL cs)). \<not> hash_line l"
      using Cons.prems(2) by (auto simp: split_on_Cons dest: set_tl_subset split: if_splits)
  qed
  show ?case using here rest by simp
qed

lemma title_search_skip:
  assumes "pre \<noteq> []" and "last pre = NL"
    and "bol \<longrightarrow> \<not> hash_line (hd (split_on NL pre))"
    and "\<forall>l \<in> set (tl (split_on NL pre)). \<not> hash_line l"
  shows "title_search bol (pre @ s) = title_search True s"
  using assms
proof (induction pre arbitrary: bol)
  case Nil
  then show ?case by simp
next
  case (Cons c cs)
  have here: "bol \<longrightarrow> title_at (c # cs @ s) = None"
  proof (cases "bol \<and> title_at (c # cs @ s) \<noteq> None")
    case False
    then show ?thesis by auto
  next
    case True
    then obtain g where "title_at (c # cs @ s) = Some g" by auto
    from title_at_Some [OF this] obtain d r where e: "c # cs @ s = CHR ''#'' # d # r"
      and d: "isspace d" by blast
    have c: "c = CHR ''#''" using e by simp
    have "cs \<noteq> []" using Cons.prems(2) c by auto
    then obtain cs' where cs: "cs = d # cs'" using e by (cases cs) auto
    have "hash_line (hd (split_on NL (c # cs)))"
      unfolding c cs using d by (simp add: split_on_Cons hash_line_def)
    then show ?thesis using True Cons.prems(3) by simp
  qed
  show ?case
  proof (cases "cs = []")
    case True
    then have "c = NL" using Cons.prems(2) by simp
    then show ?thesis using True by (simp add: title_at_def)
  next
    case False
    have "title_search (c = NL) (cs @ s) = title_search True s"
    proof (rule Cons.IH [OF False])
      show "last cs = NL" using Cons.prems(2) False by simp
      show "c = NL \<longrightarrow> \<not> hash_line (hd (split_on NL cs))"
        using Cons.prems(4) split_on_nonempty [of NL cs]
        by (cases "split_on NL cs") (auto simp: split_on_Cons)
      show "\<forall>l \<in> set (tl (split_on NL cs)). \<not> hash_line l"
        using Cons.prems(4) by (auto simp: split_on_Cons dest: set_tl_subset split: if_splits)
    qed
    then show ?thesis using here by (cases bol) auto
  qed
qed

lemma title_at_heading:
  assumes "ws \<noteq> []" and "\<forall>c \<in> set ws. isspace c"
    and "t \<noteq> []" and "\<not> isspace (hd t)" and "NL \<notin> set t"
    and "post = [] \<or> hd post = NL"
  shows "title_at (CHR ''#'' # ws @ t @ post) = Some t"
proof -
  obtain x t' where t: "t = x # t'" using assms(3) by (cases t) auto
  have w: "takeWhile isspace (ws @ t @ post) = ws"
    using assms(2,4) by (simp add: t)
  obtain j where j: "length ws = Suc j" using assms(1) by (cases ws) auto
  have "takeWhile (\<lambda>c. c \<noteq> NL) post = []"
    using assms(6) by (cases post) auto
  moreover have "\<forall>c \<in> set t. c \<noteq> NL" using assms(5) by auto
  ultimately have g: "takeWhile (\<lambda>c. c \<noteq> NL) (t @ post) = t"
    by simp
  have "drop (Suc j) (ws @ t @ post) = t @ post" using j by simp
  then have "title_group (ws @ t @ post) (Suc j) = Some t"
    using g assms(3) by simp
  then show ?thesis by (simp add: title_at_def w j)
qed

lemma strip_text:
  assumes "t \<noteq> []" and "\<not> isspace (hd t)"
  shows "strip t = rstrip t" and "rstrip t \<noteq> []"
proof -
  obtain x t' where t: "t = x # t'" using assms(1) by (cases t) auto
  show "strip t = rstrip t" using assms(2) by (simp add: strip_def lstrip_def t)
  have "\<exists>c \<in> set (rev t). \<not> isspace c" using assms(2) t by auto
  then have "dropWhile isspace (rev t) \<noteq> []" by simp
  then show "rstrip t \<noteq> []" by (simp add: rstrip_def)
qed

text \<open>
  C3, as the specification states it, fails where a tab follows the \<open>#\<close>: no line is
  one \<open>#\<close>, one space and text, and the title is not the placeholder.
\<close>

theorem extract_title_tab_counterexample:
  "split_on NL (skip_frontmatter [CHR ''#'', CHR 0x09, CHR ''F'', CHR ''i'', CHR ''x''])
     = [[CHR ''#'', CHR 0x09, CHR ''F'', CHR ''i'', CHR ''x'']]
   \<and> \<not> spec_heading_line [CHR ''#'', CHR 0x09, CHR ''F'', CHR ''i'', CHR ''x'']
   \<and> extract_title [CHR ''#'', CHR 0x09, CHR ''F'', CHR ''i'', CHR ''x''] = ''Fix''"
  by code_simp

text \<open>
  C3, amended. With the text taken after the frontmatter skip as the code performs it:
  when no line is \<open>#\<close> alone or begins with \<open>#\<close> and a white space character,
  \<open>extract_title\<close> returns \<open>Untitled\<close>; and when the first such line is \<open>#\<close>, white
  space other than newlines, and then text that begins with a character that is not
  white space, it returns that text without its trailing white space, which is not empty.
\<close>

theorem extract_title_amended:
  "((\<forall>l \<in> set (split_on NL (skip_frontmatter content)). \<not> hash_line l)
      \<longrightarrow> extract_title content = ''Untitled'')
   \<and> (skip_frontmatter content = pre @ ''#'' @ ws @ t @ post
        \<and> (pre = [] \<or> last pre = NL)
        \<and> (\<forall>l \<in> set (split_on NL pre). \<not> hash_line l)
        \<and> ws \<noteq> [] \<and> (\<forall>c \<in> set ws. isspace c \<and> c \<noteq> NL)
        \<and> t \<noteq> [] \<and> \<not> isspace (hd t) \<and> NL \<notin> set t
        \<and> (post = [] \<or> hd post = NL)
      \<longrightarrow> extract_title content = rstrip t \<and> extract_title content \<noteq> [])"
proof (intro conjI impI)
  assume a: "\<forall>l \<in> set (split_on NL (skip_frontmatter content)). \<not> hash_line l"
  have "title_search True (skip_frontmatter content) = None"
  proof (rule title_search_None)
    show "True \<longrightarrow> \<not> hash_line (hd (split_on NL (skip_frontmatter content)))"
      using a split_on_nonempty [of NL "skip_frontmatter content"]
      by (cases "split_on NL (skip_frontmatter content)") auto
    show "\<forall>l \<in> set (tl (split_on NL (skip_frontmatter content))). \<not> hash_line l"
      using a by (auto dest: set_tl_subset)
  qed
  then show "extract_title content = ''Untitled''" by (simp add: extract_title_def)
next
  assume h: "skip_frontmatter content = pre @ ''#'' @ ws @ t @ post
        \<and> (pre = [] \<or> last pre = NL)
        \<and> (\<forall>l \<in> set (split_on NL pre). \<not> hash_line l)
        \<and> ws \<noteq> [] \<and> (\<forall>c \<in> set ws. isspace c \<and> c \<noteq> NL)
        \<and> t \<noteq> [] \<and> \<not> isspace (hd t) \<and> NL \<notin> set t
        \<and> (post = [] \<or> hd post = NL)"
  have at: "title_at (CHR ''#'' # ws @ t @ post) = Some t"
    using h by (intro title_at_heading) auto
  have s: "title_search True (CHR ''#'' # ws @ t @ post) = Some t"
    using at by simp
  have "title_search True (pre @ CHR ''#'' # ws @ t @ post) = Some t"
  proof (cases "pre = []")
    case True
    then show ?thesis using s by simp
  next
    case False
    have "title_search True (pre @ CHR ''#'' # ws @ t @ post)
        = title_search True (CHR ''#'' # ws @ t @ post)"
    proof (rule title_search_skip [OF False])
      show "last pre = NL" using h False by simp
      show "True \<longrightarrow> \<not> hash_line (hd (split_on NL pre))"
        using h split_on_nonempty [of NL pre] by (cases "split_on NL pre") auto
      show "\<forall>l \<in> set (tl (split_on NL pre)). \<not> hash_line l"
        using h by (auto dest: set_tl_subset)
    qed
    then show ?thesis using s by simp
  qed
  then have "extract_title content = strip t"
    using h by (simp add: extract_title_def)
  moreover have "strip t = rstrip t" and "rstrip t \<noteq> []"
    using strip_text [of t] h by auto
  ultimately show "extract_title content = rstrip t" and "extract_title content \<noteq> []"
    by simp_all
qed


theorem extract_title_amended_witness:
  "list_all (\<lambda>l. \<not> hash_line l) (split_on NL (skip_frontmatter ''no heading\<newline>##Sub''))
   \<and> extract_title ''no heading\<newline>##Sub'' = ''Untitled''
   \<and> skip_frontmatter ''intro\<newline>#  Title  \<newline>more''
        = ''intro\<newline>'' @ ''#'' @ ''  '' @ ''Title  '' @ ''\<newline>more''
   \<and> list_all (\<lambda>l. \<not> hash_line l) (split_on NL ''intro\<newline>'')
   \<and> list_all (\<lambda>c. isspace c \<and> c \<noteq> NL) ''  ''
   \<and> \<not> isspace (hd ''Title  '') \<and> NL \<notin> set ''Title  ''
   \<and> extract_title ''intro\<newline>#  Title  \<newline>more'' = ''Title''"
proof -
  have 1: "\<forall>l \<in> set (split_on NL (skip_frontmatter ''no heading\<newline>##Sub'')). \<not> hash_line l"
    by code_simp
  have 2: "skip_frontmatter ''intro\<newline>#  Title  \<newline>more''
        = ''intro\<newline>'' @ ''#'' @ ''  '' @ ''Title  '' @ ''\<newline>more''"
    by code_simp
  have 3: "\<forall>l \<in> set (split_on NL ''intro\<newline>''). \<not> hash_line l" by code_simp
  have 4: "\<forall>c \<in> set ''  ''. isspace c \<and> c \<noteq> NL" by code_simp
  have 5: "\<not> isspace (hd ''Title  '')" by code_simp
  have 6: "NL \<notin> set ''Title  ''" by simp
  have 7: "rstrip ''Title  '' = ''Title''" by code_simp
  have a: "extract_title ''no heading\<newline>##Sub'' = ''Untitled''"
    using 1 extract_title_amended [of "''no heading\<newline>##Sub''"] by blast
  have "extract_title ''intro\<newline>#  Title  \<newline>more'' = rstrip ''Title  ''"
    using 2 3 4 5 6
      extract_title_amended [of "''intro\<newline>#  Title  \<newline>more''" "''intro\<newline>''" "''  ''"
        "''Title  ''" "''\<newline>more''"]
    by simp
  then show ?thesis using 1 2 3 4 5 6 7 a by (simp add: list_all_iff)
qed

section \<open>Frontmatter\<close>

lemma prefix_single: "prefix [q] v \<longleftrightarrow> v \<noteq> [] \<and> hd v = q"
  by (cases v) auto

lemma suffix_single: "suffix [q] v \<longleftrightarrow> v \<noteq> [] \<and> last v = q"
proof (cases v rule: rev_cases)
  case Nil
  then show ?thesis by simp
next
  case (snoc ys y)
  have "suffix [q] (ys @ [y]) \<longleftrightarrow> y = q"
    by (simp add: suffix_def)
  then show ?thesis using snoc by simp
qed

lemma spec_unquote_eq: "spec_unquote v = strip_quotes v"
  unfolding spec_unquote_def strip_quotes_def prefix_single suffix_single by auto

lemma add_line_spec_entry:
  "add_line m l = (case spec_entry l of None \<Rightarrow> m | Some (k, v) \<Rightarrow> m(k \<mapsto> v))"
  by (simp add: add_line_def spec_entry_def spec_unquote_eq Let_def)

lemma foldl_add_line:
  "foldl add_line m ls = m ++ map_of (rev (List.map_filter spec_entry ls))"
proof (induction ls arbitrary: m)
  case Nil
  then show ?case by (simp add: List.map_filter_simps)
next
  case (Cons l ls)
  show ?case
  proof (cases "spec_entry l")
    case None
    then have "add_line m l = m" by (simp add: add_line_spec_entry)
    then have "foldl add_line m (l # ls) = foldl add_line m ls" by simp
    then show ?thesis using None by (simp add: Cons.IH List.map_filter_simps)
  next
    case (Some e)
    obtain k v where e: "e = (k, v)" by (cases e)
    let ?es = "List.map_filter spec_entry ls"
    have "add_line m l = m(k \<mapsto> v)" using Some e by (simp add: add_line_spec_entry)
    then have "foldl add_line m (l # ls) = foldl add_line (m(k \<mapsto> v)) ls" by simp
    then have "foldl add_line m (l # ls) = m(k \<mapsto> v) ++ map_of (rev ?es)"
      by (simp only: Cons.IH)
    also have "m(k \<mapsto> v) = m ++ map_of [(k, v)]" by simp
    also have "(m ++ map_of [(k, v)]) ++ map_of (rev ?es) = m ++ map_of (rev ?es @ [(k, v)])"
      by (simp only: map_of_append map_add_assoc)
    also have "rev ?es @ [(k, v)] = rev (List.map_filter spec_entry (l # ls))"
      using Some e by (simp add: List.map_filter_simps)
    finally show ?thesis .
  qed
qed

lemma isspace_colon: "isspace w \<Longrightarrow> w \<noteq> CHR '':''"
  by (auto simp: isspace_def)

lemma colon_isspace: "isspace w \<Longrightarrow> CHR '':'' \<noteq> w"
  by (auto simp: isspace_def)

lemma isspace_NL: "isspace NL"
  by (simp add: isspace_def)

lemma rstrip_snoc: "isspace w \<Longrightarrow> rstrip (v @ [w]) = rstrip v"
  by (simp add: rstrip_def)

lemma strip_Cons: "isspace w \<Longrightarrow> strip (w # v) = strip v"
  by (simp add: strip_def lstrip_def)

lemma strip_snoc:
  assumes "isspace w"
  shows "strip (v @ [w]) = strip v"
proof (cases "\<forall>x \<in> set v. isspace x")
  case True
  then have e: "dropWhile isspace (v @ [w]) = []" "dropWhile isspace v = []"
    using assms by simp_all
  show ?thesis by (simp only: strip_def lstrip_def e)
next
  case False
  then obtain x where "x \<in> set v" "\<not> isspace x" by blast
  then have "dropWhile isspace (v @ [w]) = dropWhile isspace v @ [w]"
    by (simp add: dropWhile_append1)
  then show ?thesis using assms by (simp add: strip_def lstrip_def rstrip_snoc)
qed

lemma spec_entry_Cons: "isspace w \<Longrightarrow> spec_entry (w # l) = spec_entry l"
  by (simp add: spec_entry_def isspace_colon colon_isspace strip_Cons)

lemma spec_entry_snoc:
  assumes "isspace w"
  shows "spec_entry (l @ [w]) = spec_entry l"
proof (cases "CHR '':'' \<in> set l")
  case False
  moreover have "w \<noteq> CHR '':''" by (rule isspace_colon [OF assms])
  ultimately have "CHR '':'' \<notin> set (l @ [w])" by auto
  then show ?thesis using False by (simp add: spec_entry_def)
next
  case True
  then have d: "dropWhile (\<lambda>c. c \<noteq> CHR '':'') l \<noteq> []" by simp
  have t: "takeWhile (\<lambda>c. c \<noteq> CHR '':'') (l @ [w]) = takeWhile (\<lambda>c. c \<noteq> CHR '':'') l"
    using True by (simp add: takeWhile_append1)
  have "dropWhile (\<lambda>c. c \<noteq> CHR '':'') (l @ [w]) = dropWhile (\<lambda>c. c \<noteq> CHR '':'') l @ [w]"
    using True by (simp add: dropWhile_append1)
  then have "tl (dropWhile (\<lambda>c. c \<noteq> CHR '':'') (l @ [w]))
      = tl (dropWhile (\<lambda>c. c \<noteq> CHR '':'') l) @ [w]"
    using d by simp
  then show ?thesis
    using True t assms by (simp add: spec_entry_def strip_snoc)
qed

lemma spec_entry_Nil: "spec_entry [] = None"
  by (simp add: spec_entry_def)

lemma split_on_snoc:
  "split_on sep (s @ [c]) =
     (if c = sep then split_on sep s @ [[]]
      else butlast (split_on sep s) @ [last (split_on sep s) @ [c]])"
proof (induction s)
  case Nil
  then show ?case by (simp add: split_on_Cons)
next
  case (Cons x s)
  then show ?case
    using split_on_nonempty [of sep s]
    by (cases "split_on sep s") (auto simp: split_on_Cons)
qed

lemma entries_Cons:
  assumes "isspace w"
  shows "List.map_filter spec_entry (split_on NL (w # s)) = List.map_filter spec_entry (split_on NL s)"
proof (cases "split_on NL s")
  case Nil
  then show ?thesis using split_on_nonempty [of NL s] by simp
next
  case (Cons l ls)
  then show ?thesis
    using assms
    by (simp add: split_on_Cons List.map_filter_simps spec_entry_Nil spec_entry_Cons)
qed

lemma entries_snoc:
  assumes "isspace w"
  shows "List.map_filter spec_entry (split_on NL (s @ [w])) = List.map_filter spec_entry (split_on NL s)"
proof -
  let ?ls = "split_on NL s"
  have ne: "?ls \<noteq> []" by (rule split_on_nonempty)
  then have ls: "?ls = butlast ?ls @ [last ?ls]" by simp
  have "List.map_filter spec_entry (butlast ?ls @ [last ?ls @ [w]])
      = List.map_filter spec_entry (butlast ?ls @ [last ?ls])"
    using assms by (simp add: List.map_filter_def spec_entry_snoc)
  then have "List.map_filter spec_entry (butlast ?ls @ [last ?ls @ [w]])
      = List.map_filter spec_entry ?ls"
    using ne by simp
  moreover have "List.map_filter spec_entry (?ls @ [[]]) = List.map_filter spec_entry ?ls"
    by (simp add: List.map_filter_def spec_entry_Nil)
  ultimately show ?thesis by (simp add: split_on_snoc)
qed

lemma entries_lstrip:
  "List.map_filter spec_entry (split_on NL (lstrip s)) = List.map_filter spec_entry (split_on NL s)"
  unfolding lstrip_def by (induction s) (simp_all add: entries_Cons)

lemma entries_rstrip:
  "List.map_filter spec_entry (split_on NL (rstrip s)) = List.map_filter spec_entry (split_on NL s)"
proof (induction s rule: rev_induct)
  case Nil
  then show ?case by (simp add: rstrip_def)
next
  case (snoc w s)
  show ?case
  proof (cases "isspace w")
    case True
    then show ?thesis using snoc by (simp add: rstrip_snoc entries_snoc)
  next
    case False
    then show ?thesis by (simp add: rstrip_def)
  qed
qed

lemma entries_strip:
  "List.map_filter spec_entry (split_on NL (strip s)) = List.map_filter spec_entry (split_on NL s)"
  by (simp add: strip_def entries_rstrip entries_lstrip)

lemma delimiter_first_line:
  assumes "prefix ''---\<newline>'' (b @ closing @ rest)"
  shows "hd (split_on NL b) = ''---''"
proof -
  have p: "prefix ''---\<newline>'' (b @ NL # ''---\<newline>'' @ rest)"
    using assms by (simp add: closing_def)
  have "b = ''---'' \<or> (\<exists>b'. b = ''---\<newline>'' @ b')"
  proof (cases b)
    case Nil
    then show ?thesis using p by auto
  next
    case b1: (Cons a1 b1)
    show ?thesis
    proof (cases b1)
      case Nil
      then show ?thesis using p b1 by auto
    next
      case b2: (Cons a2 b2)
      show ?thesis
      proof (cases b2)
        case Nil
        then show ?thesis using p b1 b2 by auto
      next
        case b3: (Cons a3 b3)
        show ?thesis
        proof (cases b3)
          case Nil
          then show ?thesis using p b1 b2 b3 by auto
        next
          case (Cons a4 b4)
          then show ?thesis using p b1 b2 b3 by auto
        qed
      qed
    qed
  qed
  then show ?thesis by (auto simp: split_on_Cons)
qed

lemma find_closing:
  assumes "\<forall>l \<in> set (tl (split_on NL b)). l \<noteq> ''---''"
    and "c = NL \<longrightarrow> hd (split_on NL b) \<noteq> ''---''"
  shows "find_sub closing (c # b @ closing @ rest) = Some (Suc (length b))"
  using assms
proof (induction b arbitrary: c)
  case Nil
  show ?case by (simp add: closing_def)
next
  case (Cons x b)
  have "\<not> prefix closing (c # (x # b) @ closing @ rest)"
  proof
    assume p: "prefix closing (c # (x # b) @ closing @ rest)"
    then have c: "c = NL" and q: "prefix ''---\<newline>'' ((x # b) @ closing @ rest)"
      by (auto simp: closing_def)
    have "hd (split_on NL (x # b)) = ''---''" using q by (rule delimiter_first_line)
    then show False using Cons.prems(2) c by blast
  qed
  moreover have "find_sub closing (x # b @ closing @ rest) = Some (Suc (length b))"
  proof (rule Cons.IH)
    show "\<forall>l \<in> set (tl (split_on NL b)). l \<noteq> ''---''"
      using Cons.prems(1) by (auto simp: split_on_Cons dest: set_tl_subset split: if_splits)
    show "x = NL \<longrightarrow> hd (split_on NL b) \<noteq> ''---''"
      using Cons.prems(1) split_on_nonempty [of NL b]
      by (cases "split_on NL b") (auto simp: split_on_Cons)
  qed
  ultimately show ?case by simp
qed

text \<open>
  C5, as the specification states it, fails where the closing delimiter is the last
  line of the text with no newline after it: the text begins with \<open>---\<close> and a later
  line is \<open>---\<close>, the line between them gives \<open>a\<close> the value \<open>b\<close>, and the parser returns
  the empty mapping.
\<close>

theorem parse_frontmatter_unterminated_counterexample:
  "prefix ''---'' ''---\<newline>a: b\<newline>---''
   \<and> split_on NL ''---\<newline>a: b\<newline>---'' = [''---'', ''a: b'', ''---'']
   \<and> spec_frontmatter [''a: b''] ''a'' = Some ''b''
   \<and> parse_frontmatter ''---\<newline>a: b\<newline>---'' ''a'' = None"
  by code_simp

text \<open>
  C5, amended. For every text whose first line is \<open>---\<close> and that has a later line \<open>---\<close>
  ended by a newline, \<open>parse_frontmatter\<close> returns the mapping obtained from the lines
  between the first line and the first such line as the specification says: lines
  without a colon ignored, the others split on the first colon, key and value trimmed,
  one layer of matching quotes stripped, a later entry of a key in place of an earlier
  one. With no line between the two delimiter lines the mapping is empty.
\<close>

theorem parse_frontmatter_amended:
  "(''---'' \<notin> set (split_on NL body) \<longrightarrow>
      parse_frontmatter (''---\<newline>'' @ body @ ''\<newline>---\<newline>'' @ rest)
        = spec_frontmatter (split_on NL body))
   \<and> parse_frontmatter (''---\<newline>---\<newline>'' @ rest) = Map.empty"
proof (intro conjI impI)
  assume a: "''---'' \<notin> set (split_on NL body)"
  let ?content = "''---\<newline>'' @ body @ ''\<newline>---\<newline>'' @ rest"
  have d3: "drop 3 ?content = NL # body @ closing @ rest" by (simp add: closing_def)
  have "find_sub closing (NL # body @ closing @ rest) = Some (Suc (length body))"
  proof (rule find_closing)
    show "\<forall>l \<in> set (tl (split_on NL body)). l \<noteq> ''---''"
      using a by (auto dest: set_tl_subset)
    show "NL = NL \<longrightarrow> hd (split_on NL body) \<noteq> ''---''"
      using a split_on_nonempty [of NL body] by (cases "split_on NL body") auto
  qed
  then have f: "find_sub closing (drop 3 ?content) = Some (Suc (length body))"
    using d3 by simp
  have y: "slice 4 (Suc (length body) + 4) ?content = body @ [NL]"
    by (simp add: slice_def)
  have p: "prefix ''---'' ?content" by simp
  have "parse_frontmatter ?content
      = foldl add_line Map.empty (split_on NL (strip (body @ [NL])))"
    unfolding parse_frontmatter_def using p f y by (simp del: append.simps add: Let_def)
  also have "\<dots> = map_of (rev (List.map_filter spec_entry (split_on NL (body @ [NL]))))"
    by (simp add: foldl_add_line entries_strip)
  also have "\<dots> = spec_frontmatter (split_on NL body)"
    by (simp add: spec_frontmatter_def entries_snoc isspace_NL)
  finally show "parse_frontmatter ?content = spec_frontmatter (split_on NL body)" .
next
  have "find_sub closing (drop 3 (''---\<newline>---\<newline>'' @ rest)) = Some 0"
    by (simp add: closing_def)
  then show "parse_frontmatter (''---\<newline>---\<newline>'' @ rest) = Map.empty"
    by (simp add: parse_frontmatter_def slice_def strip_def lstrip_def rstrip_def
        split_on.simps(1) add_line_def)
qed

theorem parse_frontmatter_amended_witness:
  "''---'' \<notin> set (split_on NL ''title: \"A: b\" \<newline>note\<newline>k : 'v'\<newline>title: C'')
   \<and> parse_frontmatter (''---\<newline>'' @ ''title: \"A: b\" \<newline>note\<newline>k : 'v'\<newline>title: C''
         @ ''\<newline>---\<newline>'' @ ''# T'') ''title'' = Some ''C''
   \<and> parse_frontmatter (''---\<newline>'' @ ''title: \"A: b\" \<newline>note\<newline>k : 'v'\<newline>title: C''
         @ ''\<newline>---\<newline>'' @ ''# T'') ''k'' = Some ''v''
   \<and> parse_frontmatter (''---\<newline>'' @ ''title: \"A: b\" \<newline>note\<newline>k : 'v'\<newline>title: C''
         @ ''\<newline>---\<newline>'' @ ''# T'') ''note'' = None"
proof -
  let ?body = "''title: \"A: b\" \<newline>note\<newline>k : 'v'\<newline>title: C''"
  have 1: "''---'' \<notin> set (split_on NL ?body)" by code_simp
  have 2: "spec_frontmatter (split_on NL ?body) ''title'' = Some ''C''" by code_simp
  have 3: "spec_frontmatter (split_on NL ?body) ''k'' = Some ''v''" by code_simp
  have 4: "spec_frontmatter (split_on NL ?body) ''note'' = None" by code_simp
  show ?thesis
    using 1 2 3 4 parse_frontmatter_amended [of ?body "''# T''"] by simp
qed

section \<open>Templates without a backslash\<close>

lemma template_item_plain: "c \<noteq> BSL \<Longrightarrow> template_item c s = Inr (Lit [c], s)"
  by (simp add: template_item_def)

lemma parse_template_plain:
  "BSL \<notin> set s \<Longrightarrow> parse_template s = Inr (map (\<lambda>c. Lit [c]) s)"
proof (induction s)
  case Nil
  then show ?case by simp
next
  case (Cons c s)
  then have "c \<noteq> BSL" and "BSL \<notin> set s" by auto
  then show ?case using Cons.IH by (simp add: template_item_plain)
qed

lemma expand_plain: "expand (map (\<lambda>c. Lit [c]) s) m = s"
  by (induction s) simp_all

lemma set_rstrip: "set (rstrip s) \<subseteq> set s"
  using set_dropWhileD [of _ isspace "rev s"] by (auto simp: rstrip_def)

lemma replacement_plain:
  assumes "BSL \<notin> set frag"
  shows "parse_template (rstrip frag @ [NL]) = Inr (map (\<lambda>c. Lit [c]) (rstrip frag @ [NL]))"
proof (rule parse_template_plain)
  show "BSL \<notin> set (rstrip frag @ [NL])" using assms set_rstrip [of frag] by auto
qed

lemma update_text_total:
  assumes "BSL \<notin> set frag"
  shows "\<exists>new. update_text frag content = Inr new"
  using replacement_plain [OF assms]
  by (simp add: update_text_def split: option.splits)

section \<open>The run of the updater\<close>

lemma map_of_write:
  "map_of (map (\<lambda>(n, x). if n = name then (n, Regular s) else (n, x)) folder) k
     = (if k = name then map_option (\<lambda>x. Regular s) (map_of folder k) else map_of folder k)"
  by (induction folder) auto

text \<open>
  C8, as the specification states it, fails where the README is there and an issue file
  cannot be read: the scan ends the run with code 1 and nothing is written.
\<close>

theorem main_unreadable_issue_counterexample:
  "map_of broken_folder ''README.md'' = Some (Regular ''# Debt\<newline>'')
   \<and> exit_code (main ''2024-05-01 12:30'' broken_folder) = 1
   \<and> files (main ''2024-05-01 12:30'' broken_folder) = broken_folder"
  by code_simp

text \<open>
  C8, amended. If the README does not exist, nothing is written and the process exits
  with code 1, and when the scan has succeeded the error is reported. If the README is a
  file that can be read and written, every scanned issue file can be read, and the
  generated section holds no backslash, then the updated document is written in place of
  the README, every other entry is left as it was, and the process exits with code 0.
\<close>

theorem main_amended:
  "(map_of folder ''README.md'' = None \<longrightarrow>
      exit_code (main now folder) = 1 \<and> files (main now folder) = folder)
   \<and> (map_of folder ''README.md'' = None \<and> scan_issues folder = Inr issues \<longrightarrow>
      Readme_not_found \<in> set (printed (main now folder)))
   \<and> (map_of folder ''README.md'' = Some (Regular content) \<and> scan_issues folder = Inr issues
        \<and> BSL \<notin> set (generate_index_section now issues) \<longrightarrow>
      (\<exists>new. update_text (generate_index_section now issues) content = Inr new
         \<and> exit_code (main now folder) = 0
         \<and> map_of (files (main now folder)) ''README.md'' = Some (Regular new)
         \<and> (\<forall>name. name \<noteq> ''README.md'' \<longrightarrow>
               map_of (files (main now folder)) name = map_of folder name)))"
proof -
  have 1: "exit_code (main now folder) = 1 \<and> files (main now folder) = folder"
    if "map_of folder ''README.md'' = None"
    using that
    by (cases "scan_issues folder") (simp_all add: main_def update_readme_def Let_def)
  have 2: "Readme_not_found \<in> set (printed (main now folder))"
    if "map_of folder ''README.md'' = None \<and> scan_issues folder = Inr issues"
    using that by (simp add: main_def update_readme_def Let_def)
  have 3: "\<exists>new. update_text (generate_index_section now issues) content = Inr new
         \<and> exit_code (main now folder) = 0
         \<and> map_of (files (main now folder)) ''README.md'' = Some (Regular new)
         \<and> (\<forall>name. name \<noteq> ''README.md'' \<longrightarrow>
               map_of (files (main now folder)) name = map_of folder name)"
    if a: "map_of folder ''README.md'' = Some (Regular content)
      \<and> scan_issues folder = Inr issues
      \<and> BSL \<notin> set (generate_index_section now issues)"
  proof -
  let ?frag = "generate_index_section now issues"
  obtain new where new: "update_text ?frag content = Inr new"
    using a update_text_total [of ?frag content] by blast
  let ?folder' = "map (\<lambda>(n, x). if n = ''README.md'' then (n, Regular new) else (n, x)) folder"
  have u: "update_readme ?frag folder = Inr (True, ?folder', [])"
    using a new by (simp add: update_readme_def read_text_def write_text_def)
  have m: "main now folder =
      \<lparr>exit_code = 0, files = ?folder',
       printed = [Scanning, Found (length issues)] @ counts issues @ [] @ [Updated]\<rparr>"
    using a u by (simp add: main_def Let_def)
  have "map_of ?folder' ''README.md'' = Some (Regular new)"
    using a by (simp add: map_of_write)
  moreover have "\<forall>name. name \<noteq> ''README.md'' \<longrightarrow> map_of ?folder' name = map_of folder name"
    by (simp add: map_of_write)
  ultimately show ?thesis
    using new m by simp
  qed
  from 1 2 3 show ?thesis by blast
qed

theorem main_amended_witness:
  "map_of issues_only_folder ''README.md'' = None
   \<and> exit_code (main ''2024-05-01 12:30'' issues_only_folder) = 1
   \<and> files (main ''2024-05-01 12:30'' issues_only_folder) = issues_only_folder
   \<and> Readme_not_found \<in> set (printed (main ''2024-05-01 12:30'' issues_only_folder))
   \<and> map_of small_folder ''README.md'' = Some (Regular ''# Debt\<newline>'')
   \<and> BSL \<notin> set (generate_index_section ''2024-05-01 12:30''
         [issue_of ''a.md'' ''---\<newline>priority: high\<newline>---\<newline>\<newline># Leak\<newline>''])
   \<and> exit_code (main ''2024-05-01 12:30'' small_folder) = 0
   \<and> map_of (files (main ''2024-05-01 12:30'' small_folder)) ''a.md'' = map_of small_folder ''a.md''"
proof -
  let ?now = "''2024-05-01 12:30''"
  let ?is = "[issue_of ''a.md'' ''---\<newline>priority: high\<newline>---\<newline>\<newline># Leak\<newline>'']"
  have 1: "map_of issues_only_folder ''README.md'' = None" by code_simp
  have 2: "scan_issues issues_only_folder = Inr ?is" by code_simp
  have 3: "map_of small_folder ''README.md'' = Some (Regular ''# Debt\<newline>'')" by code_simp
  have 4: "scan_issues small_folder = Inr ?is" by code_simp
  have 5: "BSL \<notin> set (generate_index_section ?now ?is)" by code_simp
  have 6: "''a.md'' \<noteq> ''README.md''" by simp
  note A = main_amended [where folder = issues_only_folder and now = ?now and issues = ?is]
  note B = main_amended [where folder = small_folder and now = ?now and issues = ?is
        and content = "''# Debt\<newline>''"]
  have a1: "exit_code (main ?now issues_only_folder) = 1
      \<and> files (main ?now issues_only_folder) = issues_only_folder"
    using A 1 by simp
  have a2: "Readme_not_found \<in> set (printed (main ?now issues_only_folder))"
    using A 1 2 by simp
  have b: "\<exists>new. update_text (generate_index_section ?now ?is) ''# Debt\<newline>'' = Inr new
         \<and> exit_code (main ?now small_folder) = 0
         \<and> map_of (files (main ?now small_folder)) ''README.md'' = Some (Regular new)
         \<and> (\<forall>name. name \<noteq> ''README.md'' \<longrightarrow>
               map_of (files (main ?now small_folder)) name = map_of small_folder name)"
    using B 3 4 5 by simp
  have b1: "exit_code (main ?now small_folder) = 0" using b by (elim exE conjE)
  have b3: "\<forall>name. name \<noteq> ''README.md'' \<longrightarrow>
      map_of (files (main ?now small_folder)) name = map_of small_folder name"
    using b by (elim exE conjE)
  have b2: "map_of (files (main ?now small_folder)) ''a.md'' = map_of small_folder ''a.md''"
    using spec [OF b3, of "''a.md''"] by simp
  show ?thesis using 1 3 5 a1 a2 b1 b2 by simp
qed

section \<open>The replaced region\<close>

lemma HEADING_Cons: "HEADING = CHR ''#'' # tl HEADING"
  by (simp add: HEADING_def)

lemma re_sub_heading:
  "re_sub tpl (HEADING @ t) =
     expand tpl (HEADING @ take (lazy_any t) t) @ re_sub tpl (drop (lazy_any t) t)"
proof -
  have "re_sub tpl (CHR ''#'' # tl HEADING @ t) =
      (if prefix HEADING (CHR ''#'' # tl HEADING @ t) then
        (let body = drop (length HEADING) (CHR ''#'' # tl HEADING @ t);
             n = lazy_any body
         in expand tpl (HEADING @ take n body) @ re_sub tpl (drop n body))
      else CHR ''#'' # re_sub tpl (tl HEADING @ t))"
    by (rule re_sub.simps(2))
  moreover have "CHR ''#'' # tl HEADING @ t = HEADING @ t"
    using HEADING_Cons by simp
  ultimately show ?thesis by (simp add: Let_def)
qed

lemma re_sub_other:
  "\<not> prefix HEADING (c # cs) \<Longrightarrow> re_sub tpl (c # cs) = c # re_sub tpl cs"
  by simp

lemma re_sub_none: "find_sub HEADING s = None \<Longrightarrow> re_sub tpl s = s"
proof (induction s)
  case Nil
  then show ?case by simp
next
  case (Cons c cs)
  then have "\<not> prefix HEADING (c # cs)" and "find_sub HEADING cs = None"
    by (auto split: if_splits)
  then show ?case using Cons.IH by (simp add: re_sub_other)
qed

lemma re_sub_before:
  "find_sub HEADING (pre @ s) = Some (length pre) \<Longrightarrow> re_sub tpl (pre @ s) = pre @ re_sub tpl s"
proof (induction pre)
  case Nil
  then show ?case by simp
next
  case (Cons c pre)
  then have "\<not> prefix HEADING (c # pre @ s)" and "find_sub HEADING (pre @ s) = Some (length pre)"
    by (auto split: if_splits)
  then show ?case using Cons.IH by (simp add: re_sub_other)
qed

lemma lookahead_lazy_any: "lookahead z \<Longrightarrow> lazy_any z = 0"
  by (cases z) simp_all

lemma lazy_any_exact:
  assumes "list_all (\<lambda>i. \<not> lookahead (drop i b @ z)) [0..<length b]"
    and "lookahead z"
  shows "lazy_any (b @ z) = length b"
  using assms(1)
proof (induction b)
  case Nil
  then show ?case using assms(2) by (simp add: lookahead_lazy_any)
next
  case (Cons x b)
  have all: "\<forall>i < Suc (length b). \<not> lookahead (drop i (x # b) @ z)"
    using Cons.prems by (auto simp: list_all_iff less_Suc_eq)
  then have "\<not> lookahead (x # b @ z)" by fastforce
  moreover have "list_all (\<lambda>i. \<not> lookahead (drop i b @ z)) [0..<length b]"
    unfolding list_all_iff
  proof
    fix i assume "i \<in> set [0..<length b]"
    then have "Suc i < Suc (length b)" by simp
    with all have "\<not> lookahead (drop (Suc i) (x # b) @ z)" by blast
    then show "\<not> lookahead (drop i b @ z)" by simp
  qed
  ultimately show ?case using Cons.IH by simp
qed

text \<open>
  C4, as the specification states it, fails where a heading of the first level follows
  the section: the region does not end there, and the heading and what follows it are
  gone from the output.
\<close>

theorem update_text_appendix_counterexample:
  "update_text (HEADING @ ''\<newline>new\<newline>'') appendix_readme
     = Inr (''intro\<newline>'' @ HEADING @ ''\<newline>new\<newline>'')
   \<and> suffix ''# Appendix\<newline>kept\<newline>'' appendix_readme
   \<and> \<not> suffix ''# Appendix\<newline>kept\<newline>'' (''intro\<newline>'' @ HEADING @ ''\<newline>new\<newline>'')"
  by code_simp

text \<open>
  C4, amended. Let the document be \<open>pre\<close>, the heading text, \<open>body\<close> and \<open>rest\<close>, where
  the heading text first occurs after \<open>pre\<close>, \<open>rest\<close> is empty or begins with a newline,
  \<open>## \<close> and a character other than \<open>#\<close>, no earlier place of \<open>body\<close> is followed so,
  and the heading text does not occur in \<open>rest\<close>. For a section without a backslash the
  output is \<open>pre\<close>, the section with its trailing white space replaced by one newline,
  and \<open>rest\<close>: every character before the heading text and every character of \<open>rest\<close>
  is kept.
\<close>

theorem update_text_frame:
  assumes "find_sub HEADING (pre @ HEADING @ body @ rest) = Some (length pre)"
    and "lookahead rest"
    and "list_all (\<lambda>i. \<not> lookahead (drop i body @ rest)) [0..<length body]"
    and "find_sub HEADING rest = None"
    and "BSL \<notin> set new_section"
  shows "update_text new_section (pre @ HEADING @ body @ rest)
    = Inr (pre @ rstrip new_section @ [NL] @ rest)"
proof -
  let ?R = "rstrip new_section @ [NL]"
  let ?tpl = "map (\<lambda>c. Lit [c]) ?R"
  have n: "lazy_any (body @ rest) = length body"
    using assms(3,2) by (rule lazy_any_exact)
  have "re_sub ?tpl (pre @ HEADING @ body @ rest) = pre @ re_sub ?tpl (HEADING @ body @ rest)"
    using assms(1) by (rule re_sub_before)
  also have "re_sub ?tpl (HEADING @ body @ rest) = ?R @ re_sub ?tpl rest"
    by (simp add: re_sub_heading n expand_plain del: map_append)
  also have "re_sub ?tpl rest = rest"
    using assms(4) by (rule re_sub_none)
  finally have "re_sub ?tpl (pre @ HEADING @ body @ rest) = pre @ ?R @ rest" .
  then show ?thesis
    using assms(1) replacement_plain [OF assms(5)] by (simp add: update_text_def)
qed

theorem update_text_frame_witness:
  "find_sub HEADING (''intro\<newline>'' @ HEADING @ ''\<newline>old\<newline>'' @ ''\<newline>## Next\<newline>kept\<newline>'')
     = Some (length ''intro\<newline>'')
   \<and> lookahead ''\<newline>## Next\<newline>kept\<newline>''
   \<and> list_all (\<lambda>i. \<not> lookahead (drop i ''\<newline>old\<newline>'' @ ''\<newline>## Next\<newline>kept\<newline>''))
        [0..<length ''\<newline>old\<newline>'']
   \<and> find_sub HEADING ''\<newline>## Next\<newline>kept\<newline>'' = None
   \<and> BSL \<notin> set (HEADING @ ''\<newline>new\<newline>\<newline>'')
   \<and> update_text (HEADING @ ''\<newline>new\<newline>\<newline>'')
        (''intro\<newline>'' @ HEADING @ ''\<newline>old\<newline>'' @ ''\<newline>## Next\<newline>kept\<newline>'')
      = Inr (''intro\<newline>'' @ HEADING @ ''\<newline>new\<newline>'' @ ''\<newline>## Next\<newline>kept\<newline>'')"
proof -
  let ?pre = "''intro\<newline>''" and ?body = "''\<newline>old\<newline>''"
    and ?rest = "''\<newline>## Next\<newline>kept\<newline>''" and ?frag = "HEADING @ ''\<newline>new\<newline>\<newline>''"
  have 1: "find_sub HEADING (?pre @ HEADING @ ?body @ ?rest) = Some (length ?pre)" by code_simp
  have 2: "lookahead ?rest" by code_simp
  have 3: "list_all (\<lambda>i. \<not> lookahead (drop i ?body @ ?rest)) [0..<length ?body]" by code_simp
  have 4: "find_sub HEADING ?rest = None" by code_simp
  have 5: "BSL \<notin> set ?frag" by code_simp
  have 6: "rstrip ?frag @ [NL] = HEADING @ ''\<newline>new\<newline>''" by code_simp
  have "update_text ?frag (?pre @ HEADING @ ?body @ ?rest) = Inr (?pre @ rstrip ?frag @ [NL] @ ?rest)"
    using 1 2 3 4 5 by (rule update_text_frame)
  then have "update_text ?frag (?pre @ HEADING @ ?body @ ?rest)
      = Inr (?pre @ HEADING @ ''\<newline>new\<newline>'' @ ?rest)"
    using 6 by (simp del: append.simps)
  then show ?thesis using 1 2 3 4 5 by blast
qed

section \<open>Replacing twice\<close>

lemma HEADING_split: "HEADING = ''##'' @ '' Current Issues by Priority''"
  by (simp add: HEADING_def)

lemma prefix_HEADING_Cons:
  "prefix HEADING (c # w) \<longleftrightarrow> c = CHR ''#'' \<and> prefix (CHR ''#'' # '' Current Issues by Priority'') w"
  by (auto simp: HEADING_def)

lemma lazy_any_lookahead: "lookahead (drop (lazy_any t) t)"
proof (induction t)
  case Nil
  then show ?case by (simp add: lookahead_def)
next
  case (Cons c cs)
  then show ?case by (cases "lookahead (c # cs)") simp_all
qed

lemma re_sub_prefix:
  assumes "prefix HEADING s"
  shows "\<exists>t. s = HEADING @ t \<and>
    re_sub tpl s = expand tpl (HEADING @ take (lazy_any t) t) @ re_sub tpl (drop (lazy_any t) t)"
proof -
  from assms obtain t where "s = HEADING @ t" by (auto simp: prefix_def)
  then show ?thesis using re_sub_heading [of tpl t] by blast
qed

declare re_sub.simps(2) [simp del]

lemma lazy_any_le: "lazy_any t \<le> length t"
  by (induction t) simp_all

lemma prefix_no_hash:
  assumes e: "\<And>m. expand tpl m = CHR ''#'' # R'"
  shows "CHR ''#'' \<notin> set q \<Longrightarrow> prefix q (re_sub tpl s) \<Longrightarrow> prefix q s"
proof (induction s arbitrary: q)
  case Nil
  then show ?case by simp
next
  case (Cons c cs)
  show ?case
  proof (cases q)
    case Nil
    then show ?thesis by simp
  next
    case q: (Cons a q')
    have a: "a \<noteq> CHR ''#''" and q': "CHR ''#'' \<notin> set q'" using Cons.prems(1) q by auto
    show ?thesis
    proof (cases "prefix HEADING (c # cs)")
      case True
      then have "\<exists>w. re_sub tpl (c # cs) = CHR ''#'' # w"
        using re_sub_prefix [of "c # cs" tpl] by (auto simp: e)
      then show ?thesis using Cons.prems(2) q a by auto
    next
      case False
      then have "re_sub tpl (c # cs) = c # re_sub tpl cs" by (rule re_sub_other)
      then have "a = c" and "prefix q' (re_sub tpl cs)" using Cons.prems(2) q by auto
      then show ?thesis using Cons.IH [OF q'] q by simp
    qed
  qed
qed

lemma no_new_heading:
  assumes e: "\<And>m. expand tpl m = HEADING @ B'"
    and n: "\<not> prefix HEADING (c # cs)"
  shows "\<not> prefix HEADING (c # re_sub tpl cs)"
proof
  let ?T' = "'' Current Issues by Priority''"
  have e': "\<And>m. expand tpl m = CHR ''#'' # (CHR ''#'' # ?T' @ B')"
    using e by (simp add: HEADING_def)
  assume "prefix HEADING (c # re_sub tpl cs)"
  then have c: "c = CHR ''#''" and p: "prefix (CHR ''#'' # ?T') (re_sub tpl cs)"
    by (simp_all add: prefix_HEADING_Cons)
  show False
  proof (cases cs)
    case Nil
    then show ?thesis using p by simp
  next
    case (Cons d ds)
    show ?thesis
    proof (cases "prefix HEADING (d # ds)")
      case True
      then have "\<exists>v. re_sub tpl (d # ds) = CHR ''#'' # CHR ''#'' # v"
        using re_sub_prefix [of "d # ds" tpl] by (auto simp: e')
      then show ?thesis using p Cons by auto
    next
      case False
      then have "re_sub tpl (d # ds) = d # re_sub tpl ds" by (rule re_sub_other)
      then have d: "d = CHR ''#''" and "prefix ?T' (re_sub tpl ds)" using p Cons by auto
      moreover have "CHR ''#'' \<notin> set ?T'" by simp
      ultimately have "prefix ?T' ds" using prefix_no_hash [OF e'] by blast
      then have "prefix HEADING (c # d # ds)" using c d by (simp add: prefix_HEADING_Cons)
      then show ?thesis using n Cons by simp
    qed
  qed
qed

lemma lookahead_cases:
  "lookahead z \<longleftrightarrow> z = [] \<or> (\<exists>x w. z = ''\<newline>## '' @ x # w \<and> x \<noteq> CHR ''#'')"
proof
  assume l: "lookahead z"
  show "z = [] \<or> (\<exists>x w. z = ''\<newline>## '' @ x # w \<and> x \<noteq> CHR ''#'')"
  proof (cases "z = []")
    case True
    then show ?thesis by simp
  next
    case False
    then have p: "prefix ''\<newline>## '' z"
      and c: "(case drop 4 z of [] \<Rightarrow> False | c # _ \<Rightarrow> c \<noteq> CHR ''#'')"
      using l unfolding lookahead_def by blast+
    from p obtain r where z: "z = ''\<newline>## '' @ r" by (auto simp: prefix_def)
    then have "drop 4 z = r" by simp
    then obtain x w where "r = x # w" and "x \<noteq> CHR ''#''"
      using c by (cases r) auto
    then show ?thesis using z by blast
  qed
next
  assume "z = [] \<or> (\<exists>x w. z = ''\<newline>## '' @ x # w \<and> x \<noteq> CHR ''#'')"
  then show "lookahead z" by (auto simp: lookahead_def)
qed

lemma lookahead_re_sub:
  assumes e: "\<And>m. expand tpl m = HEADING @ B'"
    and l: "lookahead z"
  shows "lookahead (re_sub tpl z)"
proof (cases "z = []")
  case True
  then show ?thesis by (simp add: lookahead_def)
next
  case False
  then obtain x w where z: "z = ''\<newline>## '' @ x # w" and x: "x \<noteq> CHR ''#''"
    using l lookahead_cases by blast
  let ?y = "''## '' @ x # w"
  have "\<not> prefix HEADING z" unfolding z by (simp add: prefix_HEADING_Cons)
  then have 1: "re_sub tpl z = NL # re_sub tpl ?y"
    unfolding z using re_sub_other [of NL ?y tpl] by simp
  show ?thesis
  proof (cases "prefix HEADING ?y")
    case True
    then have "\<exists>v. re_sub tpl ?y = HEADING @ v"
      using re_sub_prefix [of ?y tpl] by (auto simp: e)
    then obtain v where "re_sub tpl z = NL # HEADING @ v" using 1 by auto
    then show ?thesis by (simp add: lookahead_def HEADING_def)
  next
    case False
    then have a: "re_sub tpl ?y = CHR ''#'' # re_sub tpl (''# '' @ x # w)"
      using re_sub_other [of "CHR ''#''" "''# '' @ x # w" tpl] by simp
    have "\<not> prefix HEADING (''# '' @ x # w)" by (simp add: prefix_HEADING_Cons)
    then have b: "re_sub tpl (''# '' @ x # w) = CHR ''#'' # re_sub tpl ('' '' @ x # w)"
      using re_sub_other [of "CHR ''#''" "'' '' @ x # w" tpl] by simp
    have "\<not> prefix HEADING ('' '' @ x # w)" by (simp add: prefix_HEADING_Cons)
    then have c: "re_sub tpl ('' '' @ x # w) = CHR '' '' # re_sub tpl (x # w)"
      using re_sub_other [of "CHR '' ''" "x # w" tpl] by simp
    have "\<not> prefix HEADING (x # w)" using x by (simp add: prefix_HEADING_Cons)
    then have d: "re_sub tpl (x # w) = x # re_sub tpl w" by (rule re_sub_other)
    have "re_sub tpl z = ''\<newline>## '' @ x # re_sub tpl w"
      using 1 a b c d by simp
    then show ?thesis using x lookahead_cases by blast
  qed
qed

lemma marker_in_section:
  assumes "prefix ''\<newline>## '' (x # B @ NL # z)"
  shows "prefix ''\<newline>## '' (x # B @ [NL])"
proof (cases B)
  case Nil
  then show ?thesis using assms by auto
next
  case b1: (Cons b1 B1)
  show ?thesis
  proof (cases B1)
    case Nil
    then show ?thesis using assms b1 by auto
  next
    case b2: (Cons b2 B2)
    show ?thesis
    proof (cases B2)
      case Nil
      then show ?thesis using assms b1 b2 by auto
    next
      case (Cons b3 B3)
      then show ?thesis using assms b1 b2 by auto
    qed
  qed
qed

lemma lazy_any_section:
  assumes "find_sub ''\<newline>## '' (B @ [NL]) = None" and "lookahead z"
  shows "lazy_any (B @ NL # z) = Suc (length B)"
  using assms(1)
proof (induction B)
  case Nil
  have "\<not> lookahead (NL # z)"
    using assms(2) by (auto simp: lookahead_cases)
  then show ?case using assms(2) by (simp add: lookahead_lazy_any)
next
  case (Cons x B)
  then have n: "\<not> prefix ''\<newline>## '' (x # B @ [NL])" and f: "find_sub ''\<newline>## '' (B @ [NL]) = None"
    by (auto split: if_splits)
  have "\<not> lookahead (x # B @ NL # z)"
  proof
    assume "lookahead (x # B @ NL # z)"
    then have "prefix ''\<newline>## '' (x # B @ NL # z) \<or> x # B @ NL # z = []"
      unfolding lookahead_def by blast
    then have "prefix ''\<newline>## '' (x # B @ NL # z)" by blast
    then show False using n marker_in_section by blast
  qed
  then show ?case using Cons.IH [OF f] by simp
qed

lemma re_sub_idem:
  assumes e: "\<And>m. expand tpl m = HEADING @ B @ [NL]"
    and f: "find_sub ''\<newline>## '' (B @ [NL]) = None"
  shows "re_sub tpl (re_sub tpl s) = re_sub tpl s"
proof (induction "length s" arbitrary: s rule: less_induct)
  case less
  show ?case
  proof (cases s)
    case Nil
    then show ?thesis by simp
  next
    case (Cons c cs)
    show ?thesis
    proof (cases "prefix HEADING s")
      case True
      then obtain t where s: "s = HEADING @ t" by (auto simp: prefix_def)
      let ?z = "drop (lazy_any t) t"
      have 1: "re_sub tpl s = HEADING @ B @ NL # re_sub tpl ?z"
        unfolding s by (simp add: re_sub_heading e)
      have "lookahead (re_sub tpl ?z)"
        using e lazy_any_lookahead by (rule lookahead_re_sub)
      then have n: "lazy_any (B @ NL # re_sub tpl ?z) = Suc (length B)"
        using f by (simp add: lazy_any_section)
      have "re_sub tpl (HEADING @ (B @ NL # re_sub tpl ?z))
          = HEADING @ B @ NL # re_sub tpl (re_sub tpl ?z)"
        unfolding re_sub_heading n by (simp add: e)
      moreover have "length ?z < length s"
        unfolding s by (simp add: HEADING_def)
      then have "re_sub tpl (re_sub tpl ?z) = re_sub tpl ?z" by (rule less)
      ultimately show ?thesis using 1 by simp
    next
      case False
      then have n: "\<not> prefix HEADING (c # cs)" using Cons by simp
      have 1: "re_sub tpl s = c # re_sub tpl cs" using n Cons by (simp add: re_sub_other)
      have "\<not> prefix HEADING (c # re_sub tpl cs)"
        using e n by (rule no_new_heading)
      then have "re_sub tpl (c # re_sub tpl cs) = c # re_sub tpl (re_sub tpl cs)"
        by (rule re_sub_other)
      moreover have "re_sub tpl (re_sub tpl cs) = re_sub tpl cs"
        using Cons by (intro less) simp
      ultimately show ?thesis using 1 by simp
    qed
  qed
qed

lemma re_sub_keeps_heading:
  assumes e: "\<And>m. expand tpl m = HEADING @ B'"
  shows "find_sub HEADING s \<noteq> None \<Longrightarrow> find_sub HEADING (re_sub tpl s) \<noteq> None"
proof (induction s)
  case Nil
  then show ?case by (simp add: HEADING_def)
next
  case (Cons c cs)
  show ?case
  proof (cases "prefix HEADING (c # cs)")
    case True
    then have "\<exists>v. re_sub tpl (c # cs) = HEADING @ v"
      using re_sub_prefix [of "c # cs" tpl] by (auto simp: e)
    then obtain v where v: "re_sub tpl (c # cs) = HEADING @ v" by blast
    have "find_sub HEADING (HEADING @ v) = Some 0"
      by (simp add: HEADING_def)
    then show ?thesis using v by simp
  next
    case False
    then have "find_sub HEADING cs \<noteq> None" using Cons.prems by auto
    then have "find_sub HEADING (re_sub tpl cs) \<noteq> None" by (rule Cons.IH)
    then show ?thesis using False by (auto simp: re_sub_other)
  qed
qed

lemma rstrip_decomp: "s = rstrip s @ rev (takeWhile isspace (rev s))"
proof -
  have "rev (dropWhile isspace (rev s)) @ rev (takeWhile isspace (rev s))
      = rev (takeWhile isspace (rev s) @ dropWhile isspace (rev s))"
    by (simp only: rev_append)
  also have "\<dots> = s" by simp
  finally show ?thesis by (simp only: rstrip_def)
qed

lemma prefix_rstrip:
  assumes "prefix h s" and "h \<noteq> []" and "\<not> isspace (last h)"
  shows "prefix h (rstrip s)"
proof -
  from assms(1) obtain t where s: "s = h @ t" by (auto simp: prefix_def)
  have hd: "\<not> isspace (hd (rev h))" using assms(2,3) by (simp add: hd_rev)
  have rh: "dropWhile isspace (rev h) = rev h"
    using hd assms(2) by (cases "rev h") auto
  show ?thesis
  proof (cases "\<forall>x \<in> set (rev t). isspace x")
    case True
    then have "dropWhile isspace (rev t @ rev h) = dropWhile isspace (rev h)"
      by (intro dropWhile_append2) blast
    then have "dropWhile isspace (rev t @ rev h) = rev h" using rh by simp
    then show ?thesis by (simp add: s rstrip_def)
  next
    case False
    then obtain x where "x \<in> set (rev t)" "\<not> isspace x" by blast
    then have "dropWhile isspace (rev t @ rev h) = dropWhile isspace (rev t) @ rev h"
      by (rule dropWhile_append1)
    then show ?thesis by (simp add: s rstrip_def)
  qed
qed

lemma find_sub_None_right: "find_sub p (a @ b) = None \<Longrightarrow> find_sub p b = None"
  by (induction a) (auto split: if_splits)

lemma find_sub_None_left:
  assumes "p \<noteq> []"
  shows "find_sub p (a @ b) = None \<Longrightarrow> find_sub p a = None"
proof (induction a)
  case Nil
  then show ?case using assms by simp
next
  case (Cons y a)
  then have n: "\<not> prefix p (y # a @ b)" and f: "find_sub p (a @ b) = None"
    by (auto split: if_splits)
  have "\<not> prefix p (y # a)"
  proof
    assume "prefix p (y # a)"
    then have "prefix p ((y # a) @ b)" by (rule prefix_prefix)
    then show False using n by simp
  qed
  then show ?case using Cons.IH [OF f] by simp
qed

lemma find_sub_None_snoc:
  assumes "p \<noteq> []" and "last p \<noteq> x"
  shows "find_sub p a = None \<Longrightarrow> find_sub p (a @ [x]) = None"
proof (induction a)
  case Nil
  have "\<not> prefix p [x]"
  proof
    assume "prefix p [x]"
    then have "p = [x]" using assms(1) by (cases p) auto
    then show False using assms(2) by simp
  qed
  then show ?case using assms(1) by simp
next
  case (Cons y a)
  then have n: "\<not> prefix p (y # a)" and f: "find_sub p a = None"
    by (auto split: if_splits)
  have "\<not> prefix p ((y # a) @ [x])"
  proof
    assume "prefix p ((y # a) @ [x])"
    then have "p = (y # a) @ [x] \<or> prefix p (y # a)" by (simp only: prefix_snoc)
    then show False using n assms(2) by auto
  qed
  then show ?case using Cons.IH [OF f] by simp
qed

lemma find_sub_append_some: "prefix p s \<Longrightarrow> find_sub p (a @ s) \<noteq> None"
proof (induction a)
  case Nil
  then show ?case by (cases s) auto
next
  case (Cons y a)
  then show ?case by auto
qed

lemma re_sub_past_newline:
  "find_sub HEADING u = None \<Longrightarrow> re_sub tpl (u @ NL # w) = u @ NL # re_sub tpl w"
proof (induction u)
  case Nil
  have "\<not> prefix HEADING (NL # w)" by (simp add: prefix_HEADING_Cons)
  then show ?case by (simp add: re_sub_other)
next
  case (Cons y u)
  then have n: "\<not> prefix HEADING (y # u)" and f: "find_sub HEADING u = None"
    by (auto split: if_splits)
  have "\<not> prefix HEADING (y # u @ NL # w)"
  proof
    assume "prefix HEADING (y # u @ NL # w)"
    then have "prefix HEADING ((y # u) @ NL # w)" by simp
    then have "prefix HEADING (y # u) \<or> (\<exists>us. HEADING = (y # u) @ us \<and> prefix us (NL # w))"
      by (simp only: prefix_append)
    then obtain us where h: "HEADING = (y # u) @ us" and "prefix us (NL # w)"
      using n by blast
    then have "us = [] \<or> NL \<in> set us" by (cases us) auto
    moreover have "NL \<notin> set HEADING" by (simp add: HEADING_def)
    moreover have "set HEADING = set (y # u) \<union> set us" using h by (metis set_append)
    ultimately have "us = []" by blast
    then have "prefix HEADING (y # u)" using h by simp
    then show False using n by simp
  qed
  then show ?case using Cons.IH [OF f] by (simp add: re_sub_other)
qed

lemma section_shape:
  assumes "prefix HEADING frag" and "find_sub ''\<newline>## '' frag = None"
  shows "\<exists>B. rstrip frag = HEADING @ B \<and> find_sub ''\<newline>## '' (B @ [NL]) = None"
proof -
  have "prefix HEADING (rstrip frag)"
    using assms(1) by (rule prefix_rstrip) (simp_all add: HEADING_def isspace_def)
  then obtain B where B: "rstrip frag = HEADING @ B" by (auto simp: prefix_def)
  have "frag = HEADING @ B @ rev (takeWhile isspace (rev frag))"
    using rstrip_decomp [of frag] B by simp
  then have "find_sub ''\<newline>## '' (HEADING @ B @ rev (takeWhile isspace (rev frag))) = None"
    using assms(2) by simp
  then have "find_sub ''\<newline>## '' (B @ rev (takeWhile isspace (rev frag))) = None"
    by (rule find_sub_None_right)
  then have "find_sub ''\<newline>## '' B = None"
    by (rule find_sub_None_left [rotated]) simp
  then have "find_sub ''\<newline>## '' (B @ [NL]) = None"
    by (rule find_sub_None_snoc [rotated 2]) simp_all
  then show ?thesis using B by blast
qed

lemma update_text_replace:
  assumes "prefix HEADING frag" and "find_sub ''\<newline>## '' frag = None" and "BSL \<notin> set frag"
    and h: "find_sub HEADING doc \<noteq> None"
  shows "\<exists>d. update_text frag doc = Inr d \<and> update_text frag d = Inr d
    \<and> find_sub HEADING d \<noteq> None"
proof -
  let ?tpl = "map (\<lambda>c. Lit [c]) (rstrip frag @ [NL])"
  from section_shape [OF assms(1,2)] obtain B where B: "rstrip frag = HEADING @ B"
    and f: "find_sub ''\<newline>## '' (B @ [NL]) = None" by blast
  have e: "\<And>m. expand ?tpl m = HEADING @ B @ [NL]"
    by (simp add: expand_plain B del: map_append)
  have p: "parse_template (rstrip frag @ [NL]) = Inr ?tpl"
    using assms(3) by (rule replacement_plain)
  let ?d = "re_sub ?tpl doc"
  have 1: "update_text frag doc = Inr ?d"
    using h p by (simp add: update_text_def)
  have 2: "find_sub HEADING ?d \<noteq> None"
    using e h by (rule re_sub_keeps_heading)
  have "re_sub ?tpl ?d = ?d" using e f by (rule re_sub_idem)
  then have 3: "update_text frag ?d = Inr ?d"
    using 2 p by (simp add: update_text_def)
  from 1 2 3 show ?thesis by blast
qed

lemma update_text_has_heading:
  assumes "prefix HEADING frag" and "find_sub ''\<newline>## '' frag = None" and "BSL \<notin> set frag"
    and "update_text frag doc = Inr d"
  shows "find_sub HEADING d \<noteq> None"
proof (cases "find_sub HEADING doc = None")
  case False
  then show ?thesis
    using update_text_replace [OF assms(1,2,3), of doc] assms(4) by auto
next
  case True
  have a: "\<And>x y. find_sub HEADING (x @ frag @ y) \<noteq> None"
  proof -
    fix x y
    have "prefix HEADING (frag @ y)" using assms(1) by (rule prefix_prefix)
    then show "find_sub HEADING (x @ frag @ y) \<noteq> None" by (rule find_sub_append_some)
  qed
  show ?thesis
  proof (cases "find_sub ''\<newline>## Integration'' doc")
    case None
    then have "d = (rstrip doc @ [NL, NL]) @ frag @ []"
      using True assms(4) by (simp add: update_text_def)
    then show ?thesis using a by metis
  next
    case (Some k)
    then have "d = (take k doc @ [NL]) @ frag @ ([NL] @ drop k doc)"
      using True assms(4) by (simp add: update_text_def)
    then show ?thesis using a by metis
  qed
qed

text \<open>
  C1, as the specification states it, fails where the section is inserted before the
  anchor heading: the first application leaves one newline more before the anchor
  than the second does.
\<close>

theorem update_text_insert_counterexample:
  "prefix HEADING empty_section
   \<and> find_sub HEADING integration_readme = None
   \<and> find_sub ''\<newline>## Integration'' integration_readme = Some 7
   \<and> (case update_text empty_section integration_readme of
         Inl e \<Rightarrow> False
       | Inr d \<Rightarrow> update_text empty_section d \<noteq> Inr d)"
  by code_simp

text \<open>
  C1, amended. Let the section begin with the heading text, hold no backslash and no
  newline followed by \<open>## \<close>. Where the document holds the heading text, replacing
  twice gives the document that replacing once gives; so does appending the section at
  the end of a document that has neither the heading text nor the anchor, when the
  section ends with one newline after a character that is not white space. For every
  document, a third application gives what the second gives.
\<close>

theorem update_text_idempotent:
  assumes "prefix HEADING frag" and "find_sub ''\<newline>## '' frag = None" and "BSL \<notin> set frag"
  shows "(find_sub HEADING doc \<noteq> None \<longrightarrow>
            (\<exists>d. update_text frag doc = Inr d \<and> update_text frag d = Inr d))
    \<and> (find_sub HEADING doc = None \<and> find_sub ''\<newline>## Integration'' doc = None
          \<and> frag = rstrip frag @ [NL] \<longrightarrow>
            (\<exists>d. update_text frag doc = Inr d \<and> update_text frag d = Inr d))
    \<and> (\<exists>d1 d2. update_text frag doc = Inr d1 \<and> update_text frag d1 = Inr d2
          \<and> update_text frag d2 = Inr d2)"
proof -
  have 1: "\<exists>d. update_text frag doc = Inr d \<and> update_text frag d = Inr d"
    if "find_sub HEADING doc \<noteq> None"
    using update_text_replace [OF assms that] by blast
  have 2: "\<exists>d. update_text frag doc = Inr d \<and> update_text frag d = Inr d"
    if a: "find_sub HEADING doc = None \<and> find_sub ''\<newline>## Integration'' doc = None
          \<and> frag = rstrip frag @ [NL]"
  proof -
    let ?tpl = "map (\<lambda>c. Lit [c]) (rstrip frag @ [NL])"
    let ?d = "rstrip doc @ [NL, NL] @ frag"
    from section_shape [OF assms(1,2)] obtain B where B: "rstrip frag = HEADING @ B"
      and f: "find_sub ''\<newline>## '' (B @ [NL]) = None" by blast
    have e: "\<And>m. expand ?tpl m = HEADING @ B @ [NL]"
      by (simp add: expand_plain B del: map_append)
    have fr: "frag = HEADING @ B @ [NL]" using a B by simp
    have p: "parse_template (rstrip frag @ [NL]) = Inr ?tpl"
      using assms(3) by (rule replacement_plain)
    have d: "update_text frag doc = Inr ?d"
      using a by (simp add: update_text_def)
    have "doc = rstrip doc @ rev (takeWhile isspace (rev doc))" by (rule rstrip_decomp)
    then have "find_sub HEADING (rstrip doc @ rev (takeWhile isspace (rev doc))) = None"
      using a by simp
    then have u: "find_sub HEADING (rstrip doc) = None"
      by (rule find_sub_None_left [rotated]) (simp add: HEADING_def)
    have "lazy_any (B @ NL # []) = Suc (length B)"
      using f by (rule lazy_any_section) (simp add: lookahead_def)
    then have "re_sub ?tpl (HEADING @ B @ [NL]) = HEADING @ B @ [NL]"
      by (simp add: re_sub_heading e del: map_append)
    then have r: "re_sub ?tpl frag = frag" using fr by simp
    have "\<not> prefix HEADING (NL # frag)" by (simp add: prefix_HEADING_Cons)
    then have "re_sub ?tpl (NL # frag) = NL # frag" using r by (simp add: re_sub_other)
    then have "re_sub ?tpl (rstrip doc @ NL # NL # frag) = rstrip doc @ NL # NL # frag"
      using re_sub_past_newline [OF u, of ?tpl "NL # frag"] by simp
    then have i: "re_sub ?tpl ?d = ?d" by simp
    have "prefix HEADING (frag @ [])" using assms(1) by simp
    then have "find_sub HEADING ((rstrip doc @ [NL, NL]) @ frag @ []) \<noteq> None"
      by (rule find_sub_append_some)
    then have "find_sub HEADING ?d \<noteq> None" by simp
    then have "update_text frag ?d = Inr ?d"
      using p i by (simp add: update_text_def)
    then show ?thesis using d by blast
  qed
  have 3: "\<exists>d1 d2. update_text frag doc = Inr d1 \<and> update_text frag d1 = Inr d2
          \<and> update_text frag d2 = Inr d2"
  proof -
    from update_text_total [OF assms(3), of doc] obtain d1 where d1: "update_text frag doc = Inr d1"
      by blast
    have "find_sub HEADING d1 \<noteq> None"
      using assms d1 by (rule update_text_has_heading)
    from update_text_replace [OF assms this] d1 show ?thesis by blast
  qed
  from 1 2 3 show ?thesis by blast
qed


theorem update_text_idempotent_witness:
  "prefix HEADING one_section \<and> find_sub ''\<newline>## '' one_section = None
   \<and> BSL \<notin> set one_section
   \<and> find_sub HEADING appendix_readme \<noteq> None
   \<and> (\<exists>d. update_text one_section appendix_readme = Inr d \<and> update_text one_section d = Inr d)
   \<and> find_sub HEADING plain_readme = None
   \<and> find_sub ''\<newline>## Integration'' plain_readme = None
   \<and> one_section = rstrip one_section @ [NL]
   \<and> (\<exists>d. update_text one_section plain_readme = Inr d \<and> update_text one_section d = Inr d)
   \<and> (\<exists>d1 d2. update_text one_section integration_readme = Inr d1
          \<and> update_text one_section d1 = Inr d2 \<and> update_text one_section d2 = Inr d2)"
proof -
  have 1: "prefix HEADING one_section" by code_simp
  have 2: "find_sub ''\<newline>## '' one_section = None" by code_simp
  have 3: "BSL \<notin> set one_section" by code_simp
  have 4: "find_sub HEADING appendix_readme \<noteq> None" by code_simp
  have 5: "find_sub HEADING plain_readme = None" by code_simp
  have 6: "find_sub ''\<newline>## Integration'' plain_readme = None" by code_simp
  have 7: "one_section = rstrip one_section @ [NL]" by code_simp
  note T = update_text_idempotent [OF 1 2 3]
  have a: "\<exists>d. update_text one_section appendix_readme = Inr d \<and> update_text one_section d = Inr d"
    using T [of appendix_readme] 4 by blast
  have b: "\<exists>d. update_text one_section plain_readme = Inr d \<and> update_text one_section d = Inr d"
    using T [of plain_readme] 5 6 7 by blast
  have c: "\<exists>d1 d2. update_text one_section integration_readme = Inr d1
          \<and> update_text one_section d1 = Inr d2 \<and> update_text one_section d2 = Inr d2"
    using T [of integration_readme] by blast
  from 1 2 3 4 5 6 7 a b c show ?thesis by blast
qed

section \<open>The archive of a session\<close>

lemma find_up_nearest:
  assumes "root \<noteq> []" and "exists d (root @ [''.memory-bank''])"
  shows "list_all (\<lambda>k. \<not> exists d (root @ take (Suc k) below @ [''.memory-bank'']))
           [0..<length below]
         \<Longrightarrow> find_up d (rev (root @ below)) = Some root"
proof (induction below rule: rev_induct)
  case Nil
  obtain c rp where r: "rev root = c # rp" using assms(1) by (cases "rev root") auto
  then have "rev (c # rp) = root" by (metis rev_rev_ident)
  then have "find_up d (c # rp) = Some root" using assms(2) by simp
  then show ?case by (simp add: r)
next
  case (snoc b bs)
  have all: "\<forall>k < Suc (length bs). \<not> exists d (root @ take (Suc k) (bs @ [b]) @ [''.memory-bank''])"
  proof (intro allI impI)
    fix k assume "k < Suc (length bs)"
    then have "k \<in> set [0..<length (bs @ [b])]" by auto
    with snoc.prems show "\<not> exists d (root @ take (Suc k) (bs @ [b]) @ [''.memory-bank''])"
      unfolding list_all_iff by blast
  qed
  then have "\<not> exists d (root @ take (Suc (length bs)) (bs @ [b]) @ [''.memory-bank''])"
    by blast
  then have here: "\<not> exists d (rev (b # rev (root @ bs)) @ [''.memory-bank''])" by simp
  have "list_all (\<lambda>k. \<not> exists d (root @ take (Suc k) bs @ [''.memory-bank''])) [0..<length bs]"
    unfolding list_all_iff
  proof
    fix k assume "k \<in> set [0..<length bs]"
    then have k: "k < length bs" by simp
    then have "k < Suc (length bs)" by simp
    with all have "\<not> exists d (root @ take (Suc k) (bs @ [b]) @ [''.memory-bank''])"
      by blast
    then show "\<not> exists d (root @ take (Suc k) bs @ [''.memory-bank''])" using k by simp
  qed
  then have "find_up d (rev (root @ bs)) = Some root" by (rule snoc.IH)
  moreover have "find_up d (rev (root @ bs @ [b])) = find_up d (rev (root @ bs))"
    using here by simp
  ultimately show ?case by simp
qed

lemma find_project_root_nearest:
  assumes "root \<noteq> []" and "exists d (root @ [''.memory-bank''])"
    and "list_all (\<lambda>k. \<not> exists d (root @ take (Suc k) below @ [''.memory-bank'']))
           [0..<length below]"
  shows "find_project_root d (root @ below) = root"
  using find_up_nearest [OF assms] by (simp add: find_project_root_def)

lemma components_one:
  assumes "CHR ''/'' \<notin> set s" and "s \<noteq> []" and "s \<noteq> ''.''"
  shows "components s = [s]"
  using assms by (simp add: components_def split_on_no_sep)

text \<open>
  C9. With the input of the example, on every disk where \<open>/proj\<close> and
  \<open>/proj/.memory-bank\<close> are directories, \<open>/tmp/t.jsonl\<close> is a file, nothing but a
  directory stands where the sessions directory goes and no directory stands where the
  copy goes, the archiver ends with status 0 and the disk holds the content of the
  transcript under \<open>/proj/.memory-bank/sessions/\<close> in a file named by the time stamp,
  an underscore, \<open>abcdef12\<close> and \<open>.jsonl\<close>. The project root is the nearest directory,
  from the working directory of the hook upwards and short of the root of the disk,
  that holds \<open>.memory-bank\<close>.
\<close>

theorem archive_example:
  assumes "map_of d [''proj''] = Some Dir"
    and "map_of d [''proj'', ''.memory-bank''] = Some Dir"
    and "map_of d [''tmp'', ''t.jsonl''] = Some (File text)"
    and "map_of d [''proj'', ''.memory-bank'', ''sessions''] \<in> {None, Some Dir}"
    and "map_of d [''proj'', ''.memory-bank'', ''sessions'', stamp @ ''_abcdef12.jsonl'']
           \<noteq> Some Dir"
    and "CHR ''/'' \<notin> set stamp"
  shows "exit_status (main_session_archive wd stamp d (Some example_input)) = 0
    \<and> map_of (disk_after (main_session_archive wd stamp d (Some example_input)))
         [''proj'', ''.memory-bank'', ''sessions'', stamp @ ''_abcdef12.jsonl'']
       = Some (File text)
    \<and> said (main_session_archive wd stamp d (Some example_input))
       = [Archived ''proj'' (stamp @ ''_abcdef12.jsonl'') ''exit'']
    \<and> (root \<noteq> [] \<and> exists d (root @ [''.memory-bank''])
         \<and> list_all (\<lambda>k. \<not> exists d (root @ take (Suc k) below @ [''.memory-bank'']))
              [0..<length below]
        \<longrightarrow> find_project_root d (root @ below) = root)"
proof -
  let ?sessions = "[''proj'', ''.memory-bank'', ''sessions'']"
  let ?name = "stamp @ ''_abcdef12.jsonl''"
  let ?src = "[''tmp'', ''t.jsonl'']"
  let ?d1 = "(if map_of d ?sessions = None then (?sessions, Dir) # d else d)"
  have start: "resolve wd ''/proj'' = [''proj'']"
    by (simp add: resolve_def components_def split_on_Cons split_on.simps(1))
  have root: "find_project_root d [''proj''] = [''proj'']"
    using assms(2) by (simp add: find_project_root_def exists_def)
  have mk: "mkdir_from d [] ?sessions = Some ?d1"
    using assms(1,2,4) by auto
  have comps: "components ''/tmp/t.jsonl'' = ?src"
    by (simp add: components_def split_on_Cons split_on.simps(1))
  have st: "stat ?d1 wd ''/tmp/t.jsonl'' = Some ?src"
    using assms(3) by (simp add: stat_def stat_from_def comps exists_def)
  have short: "short_id_of (VStr ''abcdef1234'') = Some (VStr ''abcdef12'')"
    by (simp add: short_id_of_def)
  have name: "archive_name stamp (VStr ''abcdef12'') = ?name"
    by (simp add: archive_name_def py_str_def)
  have "?name \<noteq> []" and "?name \<noteq> ''.''" and dots: "?name \<noteq> ''..''"
    by (simp_all add: append_eq_Cons_conv)
  moreover have "CHR ''/'' \<notin> set ?name" using assms(6) by simp
  ultimately have comp: "components ?name = [?name]" by (intro components_one)
  have rel: "\<not> prefix ''/'' ?name" using assms(6) by (cases stamp) auto
  have w1: "walk ?d1 [] ?sessions = Some ?sessions" by simp
  have w2: "walk ?d1 [] (?sessions @ [?name]) = Some (?sessions @ [?name])"
    using dots by simp
  have wr: "write_at ?d1 ?src [] (?sessions @ [?name]) text
      = Some ((?sessions @ [?name], File text) # ?d1)"
    using assms(4,5) w1 dots by (auto simp: write_at_def is_dir_def Let_def)
  have nd: "\<not> is_dir ?d1 (?sessions @ [?name])"
    using assms(5) by (simp add: is_dir_def)
  have cp: "copy2 ?d1 wd ''/tmp/t.jsonl'' [] (?sessions @ [?name])
      = Some ((?sessions @ [?name], File text) # ?d1)"
  proof -
    have "map_of ?d1 ?src = Some (File text)" using assms(3) by simp
    then show ?thesis
      unfolding copy2_def st stat_from_def w2 using wr nd
      by (simp del: walk.simps mkdir_from.simps)
  qed
  have arch: "archive wd stamp d (VStr ''abcdef1234'') ''/tmp/t.jsonl'' (VStr ''exit'') ''/proj'' =
      \<lparr>exit_status = 0, disk_after = (?sessions @ [?name], File text) # ?d1,
       said = [Archived ''proj'' ?name ''exit'']\<rparr>"
    unfolding archive_def start root
    using mk st short name comp rel cp
    by (simp add: name_of_def py_str_def Let_def del: mkdir_from.simps walk.simps)
  have run: "main_session_archive wd stamp d (Some example_input) =
      \<lparr>exit_status = 0, disk_after = (?sessions @ [?name], File text) # ?d1,
       said = [Archived ''proj'' ?name ''exit'']\<rparr>"
    unfolding main_session_archive_def example_input_def
    using arch by (simp add: get_default_def to_path_def Let_def)
  have near: "find_project_root d (root @ below) = root"
    if "root \<noteq> [] \<and> exists d (root @ [''.memory-bank''])
         \<and> list_all (\<lambda>k. \<not> exists d (root @ take (Suc k) below @ [''.memory-bank'']))
              [0..<length below]"
    using that find_project_root_nearest [of root d below] by blast
  show ?thesis using run near by simp
qed

theorem archive_example_witness:
  "map_of project_disk [''proj''] = Some Dir
   \<and> map_of project_disk [''proj'', ''.memory-bank''] = Some Dir
   \<and> map_of project_disk [''tmp'', ''t.jsonl''] = Some (File ''{}'')
   \<and> map_of project_disk [''proj'', ''.memory-bank'', ''sessions''] = None
   \<and> CHR ''/'' \<notin> set ''2024-05-01_1230''
   \<and> exit_status (main_session_archive [''home''] ''2024-05-01_1230'' project_disk
         (Some example_input)) = 0
   \<and> map_of (disk_after (main_session_archive [''home''] ''2024-05-01_1230'' project_disk
         (Some example_input)))
         [''proj'', ''.memory-bank'', ''sessions'', ''2024-05-01_1230_abcdef12.jsonl'']
       = Some (File ''{}'')
   \<and> exists project_disk ([''proj''] @ [''.memory-bank''])
   \<and> list_all (\<lambda>k. \<not> exists project_disk
         ([''proj''] @ take (Suc k) [''src'', ''lib''] @ [''.memory-bank''])) [0..<length [''src'', ''lib'']]
   \<and> find_project_root project_disk ([''proj''] @ [''src'', ''lib'']) = [''proj'']"
proof -
  let ?stamp = "''2024-05-01_1230''"
  have 1: "map_of project_disk [''proj''] = Some Dir" by code_simp
  have 2: "map_of project_disk [''proj'', ''.memory-bank''] = Some Dir" by code_simp
  have 3: "map_of project_disk [''tmp'', ''t.jsonl''] = Some (File ''{}'')" by code_simp
  have 4: "map_of project_disk [''proj'', ''.memory-bank'', ''sessions''] = None" by code_simp
  then have s4: "map_of project_disk [''proj'', ''.memory-bank'', ''sessions''] \<in> {None, Some Dir}"
    by simp
  have 5: "map_of project_disk [''proj'', ''.memory-bank'', ''sessions'', ?stamp @ ''_abcdef12.jsonl'']
      \<noteq> Some Dir" by code_simp
  have 6: "CHR ''/'' \<notin> set ?stamp" by simp
  have 7: "[''proj''] \<noteq> ([] :: path)" by simp
  have 8: "exists project_disk ([''proj''] @ [''.memory-bank''])" by code_simp
  have 9: "list_all (\<lambda>k. \<not> exists project_disk
         ([''proj''] @ take (Suc k) [''src'', ''lib''] @ [''.memory-bank''])) [0..<length [''src'', ''lib'']]"
    by code_simp
  note T = archive_example [OF 1 2 3 s4 5 6, of "[''home'']" "[''proj'']" "[''src'', ''lib'']"]
  have a: "exit_status (main_session_archive [''home''] ?stamp project_disk (Some example_input)) = 0"
    using T by (elim conjE)
  have b: "map_of (disk_after (main_session_archive [''home''] ?stamp project_disk
         (Some example_input)))
         [''proj'', ''.memory-bank'', ''sessions'', ?stamp @ ''_abcdef12.jsonl''] = Some (File ''{}'')"
    using T by (elim conjE)
  have c: "find_project_root project_disk ([''proj''] @ [''src'', ''lib'']) = [''proj'']"
    using T 7 8 9 by (elim conjE) simp
  show ?thesis using 1 2 3 4 6 8 9 a b c by simp
qed










end
